theory Spec2Isabelle
  imports Main "HOL-Library.Word"
begin

unbundle bit_operations_syntax

section \<open>Data model of main.c\<close>

type_synonym Uint8 = "8 word"
type_synonym Uint16 = "16 word"

text \<open>SDL_Color as the tuple (r, g, b, a).\<close>

type_synonym SDL_Color = "Uint8 \<times> Uint8 \<times> Uint8 \<times> Uint8"

definition pal :: "SDL_Color list" where
  "pal =
    [(0x00, 0x00, 0x00, 0xFF),
     (0x00, 0x00, 0xAA, 0xFF),
     (0x00, 0xAA, 0x00, 0xFF),
     (0x00, 0xAA, 0xAA, 0xFF),
     (0xAA, 0x00, 0x00, 0xFF),
     (0xAA, 0x00, 0xAA, 0xFF),
     (0xAA, 0x55, 0x00, 0xFF),
     (0xAA, 0xAA, 0xAA, 0xFF),
     (0x55, 0x55, 0x55, 0xFF),
     (0x55, 0x55, 0xFF, 0xFF),
     (0x55, 0xFF, 0x55, 0xFF),
     (0x55, 0xFF, 0xFF, 0xFF),
     (0xFF, 0x55, 0x55, 0xFF),
     (0xFF, 0x55, 0xFF, 0xFF),
     (0xFF, 0xFF, 0x55, 0xFF),
     (0xFF, 0xFF, 0xFF, 0xFF)]"

record Cel =
  header_offset :: Uint16
  data_offset :: Uint16
  width :: Uint8
  height :: Uint8
  transparency_color :: Uint8
  is_mirrored :: Uint8
  unmirrored_loop_num :: Uint8

text \<open>
  The arrays \<open>Cel cels[MAX_CELS]\<close> and \<open>Loop loops[MAX_LOOPS]\<close> are functions from the
  index. Every index the program uses is below a count held in a \<open>Uint8\<close>, hence at most
  254, inside the 255 slots of the array.
\<close>

record Loop =
  offset :: Uint16
  num_cels :: Uint8
  total_width :: Uint8
  total_height :: Uint8
  cels :: "nat \<Rightarrow> Cel"

record View =
  loops :: "nat \<Rightarrow> Loop"
  num_loops :: Uint8

text \<open>\<open>View view = { 0 }\<close>: every field of every slot is zero.\<close>

definition cel0 :: Cel where
  "cel0 = \<lparr>header_offset = 0, data_offset = 0, width = 0, height = 0,
           transparency_color = 0, is_mirrored = 0, unmirrored_loop_num = 0\<rparr>"

definition loop0 :: Loop where
  "loop0 = \<lparr>offset = 0, num_cels = 0, total_width = 0, total_height = 0, cels = (\<lambda>j. cel0)\<rparr>"

definition view0 :: View where
  "view0 = \<lparr>loops = (\<lambda>i. loop0), num_loops = 0\<rparr>"

record SDL_Rect =
  rect_x :: int
  rect_y :: int
  rect_w :: int
  rect_h :: int

definition rect0 :: SDL_Rect where
  "rect0 = \<lparr>rect_x = 0, rect_y = 0, rect_w = 0, rect_h = 0\<rparr>"

section \<open>GetSurfaceSize\<close>

text \<open>
  The body of the inner loop over \<open>j\<close>: \<open>total_width\<close> is a \<open>Uint8\<close>, so the sum is
  stored modulo 256; the heights are compared as unsigned values.
\<close>

definition size_cel :: "nat \<Rightarrow> Loop \<Rightarrow> Loop" where
  "size_cel j loop =
     (let cel = cels loop j;
          loop1 = loop\<lparr>total_width := total_width loop + width cel\<rparr>
      in if height cel > total_height loop1
         then loop1\<lparr>total_height := height cel\<rparr>
         else loop1)"

definition size_loop :: "Loop \<Rightarrow> Loop" where
  "size_loop loop = fold size_cel [0..<unat (num_cels loop)] loop"

text \<open>The body of the outer loop over \<open>i\<close>; \<open>result.w\<close> and \<open>result.h\<close> are C ints.\<close>

definition size_view_loop :: "nat \<Rightarrow> SDL_Rect \<times> View \<Rightarrow> SDL_Rect \<times> View" where
  "size_view_loop i = (\<lambda>(result, view).
     let loop = size_loop (loops view i);
         view1 = view\<lparr>loops := (loops view)(i := loop)\<rparr>;
         result1 = (if uint (total_width loop) > rect_w result
                    then result\<lparr>rect_w := uint (total_width loop)\<rparr>
                    else result)
     in (result1\<lparr>rect_h := rect_h result1 + uint (total_height loop)\<rparr>, view1))"

text \<open>Returns the rectangle and the View as the function leaves it.\<close>

definition GetSurfaceSize :: "View \<Rightarrow> SDL_Rect \<times> View" where
  "GetSurfaceSize view =
     (let (result, view1) = fold size_view_loop [0..<unat (num_loops view)] (rect0, view)
      in (result\<lparr>rect_w := rect_w result * 2\<rparr>, view1))"

section \<open>The input stream\<close>

text \<open>
  A \<open>FILE\<close> opened with \<open>"rb"\<close>: the bytes of the file and the position indicator.
  \<open>fseek\<close> with \<open>SEEK_SET\<close> may set the position past the end; \<open>fread\<close> there reads
  nothing.
\<close>

record FILE =
  content :: "Uint8 list"
  fpos :: nat

definition fseek :: "FILE \<Rightarrow> nat \<Rightarrow> FILE" where
  "fseek f off = f\<lparr>fpos := off\<rparr>"

definition ftell :: "FILE \<Rightarrow> nat" where
  "ftell f = fpos f"

text \<open>
  \<open>fread(&x, sizeof(Uint8), 1, file)\<close>: the byte read, or \<open>None\<close> at the end of the file,
  where nothing is stored into \<open>x\<close> and the position stays. The program never looks at the
  return value of \<open>fread\<close>: after a short read it goes on with what \<open>x\<close> held before.
\<close>

definition fread_u8 :: "FILE \<Rightarrow> Uint8 option \<times> FILE" where
  "fread_u8 f =
     (if fpos f < length (content f)
      then (Some (content f ! fpos f), f\<lparr>fpos := fpos f + 1\<rparr>)
      else (None, f))"

text \<open>
  \<open>fread(&x, sizeof(Uint16), 1, file)\<close> where \<open>x\<close> held \<open>old\<close>: what \<open>x\<close> holds after the
  call, and the stream. The bytes are stored in file order, which on the little-endian
  hosts the program is built for makes the first byte the low one. With one byte left,
  that byte is stored and the high byte of \<open>x\<close> stays (C calls the value of a partly read
  element indeterminate; the C libraries copy what they got into the buffer); with none
  left, \<open>x\<close> stays as it was.
\<close>

definition le16 :: "Uint8 \<Rightarrow> Uint8 \<Rightarrow> Uint16" where
  "le16 lo hi = ucast lo OR push_bit 8 (ucast hi)"

definition fread_u16 :: "Uint16 \<Rightarrow> FILE \<Rightarrow> Uint16 \<times> FILE" where
  "fread_u16 old f =
     (if fpos f + 2 \<le> length (content f)
      then (le16 (content f ! fpos f) (content f ! (fpos f + 1)), f\<lparr>fpos := fpos f + 2\<rparr>)
      else if fpos f < length (content f)
      then (le16 (content f ! fpos f) (ucast (drop_bit 8 old)), f\<lparr>fpos := length (content f)\<rparr>)
      else (old, f))"

text \<open>
  The three automatic variables of \<open>ViewToBMP\<close> that are declared without a value and
  are written by \<open>fread\<close> alone: \<open>rel_offset\<close>, \<open>info\<close> and \<open>byte\<close>. Each has one place in
  the frame of the function, so after a short read it still holds what was there: the
  value of the last read into it, or, before any, whatever the stack held when the
  function was entered. That first content is not given by the program; it is a parameter
  of the reads below, which return the content they leave.
\<close>

record locals =
  l_rel_offset :: Uint16
  l_info :: Uint8
  l_byte :: Uint8

section \<open>ViewToBMP: reading the View\<close>

text \<open>\<open>fseek(file, 2, SEEK_SET); fread(&view.num_loops, ...)\<close>\<close>

definition read_num_loops :: "FILE \<times> View \<Rightarrow> FILE \<times> View" where
  "read_num_loops = (\<lambda>(f, view).
     case fread_u8 (fseek f 2) of
       (Some n, f1) \<Rightarrow> (f1, view\<lparr>num_loops := n\<rparr>)
     | (None, f1) \<Rightarrow> (f1, view))"

text \<open>\<open>fread(&view.loops[i].offset, sizeof(Uint16), 1, file)\<close>\<close>

definition read_loop_offset :: "nat \<Rightarrow> FILE \<times> View \<Rightarrow> FILE \<times> View" where
  "read_loop_offset i = (\<lambda>(f, view).
     let (x, f1) = fread_u16 (offset (loops view i)) f
     in (f1, view\<lparr>loops := (loops view)(i := (loops view i)\<lparr>offset := x\<rparr>)\<rparr>))"

text \<open>
  The cel header offsets: \<open>loop->offset + rel_offset\<close> is an int sum stored into a
  \<open>Uint16\<close>, that is the sum modulo 65536.
\<close>

definition read_cel_offset :: "nat \<Rightarrow> FILE \<times> Loop \<times> locals \<Rightarrow> FILE \<times> Loop \<times> locals" where
  "read_cel_offset j = (\<lambda>(f, loop, st).
     let (rel_offset, f1) = fread_u16 (l_rel_offset st) f
     in (f1,
         loop\<lparr>cels := (cels loop)(j := (cels loop j)\<lparr>header_offset := offset loop + rel_offset\<rparr>)\<rparr>,
         st\<lparr>l_rel_offset := rel_offset\<rparr>))"

text \<open>
  One cel header. \<open>width\<close> and \<open>height\<close> are fields of the zeroed View and keep their
  value when nothing is read; so does the local \<open>info\<close>. \<open>ftell\<close> is stored into the
  \<open>Uint16\<close> field \<open>data_offset\<close>.
\<close>

definition read_cel_header :: "nat \<Rightarrow> FILE \<times> Loop \<times> locals \<Rightarrow> FILE \<times> Loop \<times> locals" where
  "read_cel_header j = (\<lambda>(f, loop, st).
     let cel = cels loop j;
         f1 = fseek f (unat (header_offset cel));
         (bw, f2) = fread_u8 f1;
         cel1 = (case bw of Some b \<Rightarrow> cel\<lparr>width := b\<rparr> | None \<Rightarrow> cel);
         (bh, f3) = fread_u8 f2;
         cel2 = (case bh of Some b \<Rightarrow> cel1\<lparr>height := b\<rparr> | None \<Rightarrow> cel1);
         (bi, f4) = fread_u8 f3;
         info = (case bi of Some b \<Rightarrow> b | None \<Rightarrow> l_info st);
         cel3 = cel2\<lparr>is_mirrored := drop_bit 7 (info AND 0x80),
                     unmirrored_loop_num := drop_bit 4 (info AND 0x70),
                     transparency_color := info AND 0x0F,
                     data_offset := of_nat (ftell f4)\<rparr>
     in (f4, loop\<lparr>cels := (cels loop)(j := cel3)\<rparr>, st\<lparr>l_info := info\<rparr>))"

text \<open>The body of the loop "Read all loops".\<close>

definition read_loop :: "nat \<Rightarrow> FILE \<times> View \<times> locals \<Rightarrow> FILE \<times> View \<times> locals" where
  "read_loop i = (\<lambda>(f, view, st).
     let loop = loops view i;
         f1 = fseek f (unat (offset loop));
         (bn, f2) = fread_u8 f1;
         loop1 = (case bn of Some n \<Rightarrow> loop\<lparr>num_cels := n\<rparr> | None \<Rightarrow> loop);
         (f3, loop2, st2) = fold read_cel_offset [0..<unat (num_cels loop1)] (f2, loop1, st);
         (f4, loop3, st3) = fold read_cel_header [0..<unat (num_cels loop2)] (f3, loop2, st2)
     in (f4, view\<lparr>loops := (loops view)(i := loop3)\<rparr>, st3))"

text \<open>
  Lines 150 to 194: from \<open>View view = { 0 }\<close> to the end of the structural reads, for the
  locals \<open>st\<close> at entry. No read is checked, so there is a result for every file.
\<close>

definition read_view :: "locals \<Rightarrow> FILE \<Rightarrow> FILE \<times> View \<times> locals" where
  "read_view st f =
     (let (f1, view1) = read_num_loops (f, view0);
          f2 = fseek f1 5;
          (f3, view2) = fold read_loop_offset [0..<unat (num_loops view1)] (f2, view1)
      in fold read_loop [0..<unat (num_loops view2)] (f3, view2, st))"

section \<open>The surface\<close>

text \<open>
  An RGBA32 surface of SDL: its size and the colour of each pixel. SDL is not part of the
  program: \<open>SDL_WriteSurfacePixel\<close> is taken from its documentation (a write outside the
  surface fails and changes nothing; the program ignores the result), and whether
  \<open>SDL_CreateSurface\<close> succeeds and what \<open>SDL_SaveBMP\<close> does to the files are left to
  the parameters \<open>create_ok\<close> and \<open>save_bmp\<close>.
\<close>

record SDL_Surface =
  surf_w :: int
  surf_h :: int
  pixels :: "int \<times> int \<Rightarrow> SDL_Color"

type_synonym files = "string \<Rightarrow> Uint8 list option"

record SDL =
  create_ok :: "int \<Rightarrow> int \<Rightarrow> bool"
  save_bmp :: "SDL_Surface \<Rightarrow> string \<Rightarrow> files \<Rightarrow> files"

type_synonym pixel_write = "int \<times> int \<times> SDL_Color"

definition SDL_WriteSurfacePixel :: "pixel_write \<Rightarrow> SDL_Surface \<Rightarrow> SDL_Surface" where
  "SDL_WriteSurfacePixel = (\<lambda>(x, y, c) s.
     if 0 \<le> x \<and> x < surf_w s \<and> 0 \<le> y \<and> y < surf_h s
     then s\<lparr>pixels := (pixels s)((x, y) := c)\<rparr>
     else s)"

datatype 'a created = Exit_Failure | Created 'a

text \<open>
  \<open>CreateSurface\<close>: \<open>exit(EXIT_FAILURE)\<close> when SDL gives no surface, else the surface
  filled with (0, 0, 0, 0). The View comes back as \<open>GetSurfaceSize\<close> left it.
\<close>

definition CreateSurface :: "SDL \<Rightarrow> View \<Rightarrow> (SDL_Surface \<times> View) created" where
  "CreateSurface sdl view =
     (let (size, view1) = GetSurfaceSize view
      in if create_ok sdl (rect_w size) (rect_h size)
         then Created (\<lparr>surf_w = rect_w size, surf_h = rect_h size, pixels = (\<lambda>p. (0, 0, 0, 0))\<rparr>, view1)
         else Exit_Failure)"

section \<open>ViewToBMP: drawing\<close>

text \<open>
  \<open>while ( count-- )\<close> with its body: the colour of the pixel, then the doubled pixel,
  two calls of \<open>SDL_WriteSurfacePixel\<close> with \<open>x += step\<close> after each. The result is the
  calls in order and the final \<open>x\<close>.
\<close>

primrec write_run :: "Cel \<Rightarrow> Uint8 \<Rightarrow> int \<Rightarrow> int \<Rightarrow> nat \<Rightarrow> int \<Rightarrow> pixel_write list \<times> int" where
  "write_run cel color y step 0 x = ([], x)"
| "write_run cel color y step (Suc count) x =
     (let c = (if color \<noteq> transparency_color cel
               then (case pal ! unat color of (r, g, b, a) \<Rightarrow> (r, g, b, 255))
               else (0, 0, 0, 0));
          (ws, x') = write_run cel color y step count (x + step + step)
      in ((x, y, c) # (x + step, y, c) # ws, x'))"

text \<open>
  \<open>while ( 1 )\<close>: one row of the cel, where \<open>byte\<close> holds \<open>byte0\<close> before the read. Each
  value of \<open>byte\<close> that is not zero gives a run: its colour, its count and the pixel
  writes made for it. At the end of the file \<open>fread\<close> stores nothing and \<open>byte\<close> is as
  it was: the loop ends if that is zero and otherwise makes the same run again and again.
  The loop may thus never end; \<open>None\<close> is a row that does not end.
\<close>

type_synonym run = "Uint8 \<times> Uint8 \<times> pixel_write list"

partial_function (option)
  row_loop :: "Cel \<Rightarrow> int \<Rightarrow> int \<Rightarrow> int \<Rightarrow> Uint8 \<Rightarrow> FILE \<Rightarrow> (run list \<times> FILE) option" where
  "row_loop cel y step x byte0 f =
     (case fread_u8 f of
        (got, f1) \<Rightarrow>
          let byte = (case got of Some b \<Rightarrow> b | None \<Rightarrow> byte0)
          in if byte = 0 then Some ([], f1)
             else let color = drop_bit 4 byte AND 0x0F;
                      count = byte AND 0x0F;
                      (ws, x') = write_run cel color y step (unat count) x
                  in Option.bind (row_loop cel y step x' byte f1)
                       (\<lambda>(runs, f2). Some ((color, count, ws) # runs, f2)))"

text \<open>
  \<open>for ( int i = 0; i < n; i++ ) body\<close> over a state, for a body that may not end:
  \<open>None\<close> is a run that never gets out of the loop.
\<close>

primrec for_each :: "nat list \<Rightarrow> (nat \<Rightarrow> 's \<Rightarrow> 's option) \<Rightarrow> 's \<Rightarrow> 's option" where
  "for_each [] body s = Some s"
| "for_each (i # is) body s = (case body i s of None \<Rightarrow> None | Some s' \<Rightarrow> for_each is body s')"

text \<open>The direction of a row of cel \<open>cel\<close> drawn in loop \<open>i\<close>: the first \<open>x\<close> and the step.\<close>

definition row_start :: "Cel \<Rightarrow> nat \<Rightarrow> int \<Rightarrow> int \<times> int" where
  "row_start cel i cel_x =
     (if is_mirrored cel \<noteq> 0 \<and> unat (unmirrored_loop_num cel) \<noteq> i
      then (cel_x + uint (width cel) * 2 - 1, - 1)
      else (cel_x, 1))"

definition draw_row ::
  "Cel \<Rightarrow> nat \<Rightarrow> int \<Rightarrow> int \<Rightarrow> Uint8 \<Rightarrow> FILE \<Rightarrow> (run list \<times> FILE) option" where
  "draw_row cel i cel_x y byte0 f =
     (let (x, step) = row_start cel i cel_x in row_loop cel y step x byte0 f)"

definition writes_of :: "run list \<Rightarrow> pixel_write list" where
  "writes_of runs = concat (map (\<lambda>(color, count, ws). ws) runs)"

text \<open>
  The body of \<open>for ( int y = cel_y; y < cel_y + cel->height; y++ )\<close>, at \<open>y = cel_y + k\<close>.
  The state is the stream, the surface and what \<open>byte\<close> holds. The row loop is left by
  \<open>break\<close> alone, where \<open>byte\<close> is zero.
\<close>

definition draw_cel_row ::
  "Cel \<Rightarrow> nat \<Rightarrow> int \<Rightarrow> int \<Rightarrow> nat \<Rightarrow> FILE \<times> SDL_Surface \<times> Uint8 \<Rightarrow> (FILE \<times> SDL_Surface \<times> Uint8) option" where
  "draw_cel_row cel i cel_x cel_y k = (\<lambda>(f, s, byte).
     case draw_row cel i cel_x (cel_y + int k) byte f of
       None \<Rightarrow> None
     | Some (runs, f1) \<Rightarrow> Some (f1, fold SDL_WriteSurfacePixel (writes_of runs) s, 0))"

definition draw_cel ::
  "Loop \<Rightarrow> nat \<Rightarrow> int \<Rightarrow> nat \<Rightarrow> FILE \<times> SDL_Surface \<times> Uint8 \<times> int \<Rightarrow>
   (FILE \<times> SDL_Surface \<times> Uint8 \<times> int) option" where
  "draw_cel loop i cel_y j = (\<lambda>(f, s, byte, cel_x).
     let cel = cels loop j;
         f1 = fseek f (unat (data_offset cel))
     in case for_each [0..<unat (height cel)] (draw_cel_row cel i cel_x cel_y) (f1, s, byte) of
          None \<Rightarrow> None
        | Some (f2, s2, byte2) \<Rightarrow> Some (f2, s2, byte2, cel_x + uint (width cel) * 2))"

definition draw_loop ::
  "View \<Rightarrow> nat \<Rightarrow> FILE \<times> SDL_Surface \<times> Uint8 \<times> int \<Rightarrow> (FILE \<times> SDL_Surface \<times> Uint8 \<times> int) option" where
  "draw_loop view i = (\<lambda>(f, s, byte, cel_y).
     let loop = loops view i
     in case for_each [0..<unat (num_cels loop)] (draw_cel loop i cel_y) (f, s, byte, 0) of
          None \<Rightarrow> None
        | Some (f1, s1, byte1, cel_x) \<Rightarrow> Some (f1, s1, byte1, cel_y + uint (total_height loop)))"

text \<open>Lines 200 to 256: the surface when the loops are done.\<close>

definition draw_view :: "View \<Rightarrow> FILE \<Rightarrow> SDL_Surface \<Rightarrow> Uint8 \<Rightarrow> SDL_Surface option" where
  "draw_view view f s byte =
     (case for_each [0..<unat (num_loops view)] (draw_loop view) (f, s, byte, 0) of
        None \<Rightarrow> None
      | Some (f1, s1, byte1, cel_y) \<Rightarrow> Some s1)"

section \<open>ViewToBMP and main\<close>

text \<open>
  What a run prints and saves, in order: \<open>Converting\<close> and \<open>Open_Error\<close> are the two
  \<open>printf\<close> of \<open>ViewToBMP\<close> before the file is read, \<open>Failed\<close> the \<open>fprintf\<close> of
  \<open>CreateSurface\<close>, \<open>Saved name s\<close> the call \<open>SDL_SaveBMP(s, name)\<close> with the \<open>printf\<close>
  after it.
\<close>

datatype event = Usage | Converting string | Open_Error string | Failed | Saved string SDL_Surface

text \<open>
  How a call ends: it returns, it ends the program by \<open>exit\<close>, or it stays in a row loop
  for ever.
\<close>

datatype status = Returned | Exited | Never_Returns

text \<open>
  \<open>snprintf(name, sizeof(name), "%s.bmp", path)\<close> keeps at most 255 characters.
\<close>

definition bmp_name :: "string \<Rightarrow> string" where
  "bmp_name path = take 255 (path @ ''.bmp'')"

text \<open>
  \<open>ViewToBMP\<close>, for the content \<open>st\<close> of the three locals at entry: how the call ends,
  what it printed and saved, and the files after it. There are four ways through the
  function and no other: the file does not open; \<open>CreateSurface\<close> exits; a row loop does
  not end; \<open>SDL_SaveBMP\<close> is reached.
\<close>

definition ViewToBMP :: "SDL \<Rightarrow> locals \<Rightarrow> files \<Rightarrow> string \<Rightarrow> status \<times> event list \<times> files" where
  "ViewToBMP sdl st fs path =
     (case fs path of
        None \<Rightarrow> (Returned, [Converting path, Open_Error path], fs)
      | Some bytes \<Rightarrow>
          (case read_view st \<lparr>content = bytes, fpos = 0\<rparr> of
             (file, view, st1) \<Rightarrow>
               (case CreateSurface sdl view of
                  Exit_Failure \<Rightarrow> (Exited, [Converting path, Failed], fs)
                | Created (s, view1) \<Rightarrow>
                    (case draw_view view1 file s (l_byte st1) of
                       None \<Rightarrow> (Never_Returns, [Converting path], fs)
                     | Some s1 \<Rightarrow>
                         (Returned, [Converting path, Saved (bmp_name path) s1],
                          save_bmp sdl s1 (bmp_name path) fs)))))"

text \<open>
  The loop of \<open>main\<close> over \<open>argv[1..]\<close>, where \<open>sts k\<close> is what the three locals hold at
  the entry of call \<open>k\<close> of \<open>ViewToBMP\<close>. The loop goes on after a call that returns, with
  the files as that call left them; \<open>exit\<close> ends the program.
\<close>

fun convert_all ::
  "SDL \<Rightarrow> (nat \<Rightarrow> locals) \<Rightarrow> files \<Rightarrow> string list \<Rightarrow> status \<times> event list \<times> files" where
  "convert_all sdl sts fs [] = (Returned, [], fs)"
| "convert_all sdl sts fs (path # paths) =
     (case ViewToBMP sdl (sts 0) fs path of
        (Returned, ev, fs1) \<Rightarrow>
          (case convert_all sdl (\<lambda>k. sts (Suc k)) fs1 paths of (r, ev', fs2) \<Rightarrow> (r, ev @ ev', fs2))
      | (r, ev, fs1) \<Rightarrow> (r, ev, fs1))"

definition main ::
  "SDL \<Rightarrow> (nat \<Rightarrow> locals) \<Rightarrow> files \<Rightarrow> string list \<Rightarrow> status \<times> event list \<times> files" where
  "main sdl sts fs argv =
     (case convert_all sdl sts fs (drop 1 argv) of
        (r, ev, fs1) \<Rightarrow> (r, (if length argv < 2 then [Usage] else []) @ ev, fs1))"

section \<open>The layout of a View file\<close>

text \<open>
  The table of the specification (section 6), read off the bytes \<open>bs\<close> of a file: these
  definitions follow the words of the specification, not the program, and serve to
  state what the reads of \<open>read_view\<close> return. Multi-byte fields are little-endian, the
  absolute offset of a cel header is the loop offset plus the relative offset, and the
  pixel data starts right after the three bytes of the header. All of these are natural
  numbers here, with no width. \<open>view_in_bounds\<close> says that every field of the table lies
  inside the file, \<open>headers_fit\<close> that the position after each cel header is below 65536.
\<close>

definition le16_at :: "Uint8 list \<Rightarrow> nat \<Rightarrow> nat" where
  "le16_at bs p = unat (bs ! p) + 256 * unat (bs ! (p + 1))"

definition loop_offset_at :: "Uint8 list \<Rightarrow> nat \<Rightarrow> nat" where
  "loop_offset_at bs i = le16_at bs (5 + 2 * i)"

definition cel_header_at :: "Uint8 list \<Rightarrow> nat \<Rightarrow> nat \<Rightarrow> nat" where
  "cel_header_at bs i j = loop_offset_at bs i + le16_at bs (loop_offset_at bs i + 1 + 2 * j)"

definition view_in_bounds :: "Uint8 list \<Rightarrow> bool" where
  "view_in_bounds bs \<longleftrightarrow>
     2 < length bs \<and> 5 + 2 * unat (bs ! 2) \<le> length bs \<and>
     (\<forall>i \<in> {..<unat (bs ! 2)}.
        loop_offset_at bs i < length bs \<and>
        loop_offset_at bs i + 1 + 2 * unat (bs ! loop_offset_at bs i) \<le> length bs \<and>
        (\<forall>j \<in> {..<unat (bs ! loop_offset_at bs i)}. cel_header_at bs i j + 3 \<le> length bs))"

definition headers_fit :: "Uint8 list \<Rightarrow> bool" where
  "headers_fit bs \<longleftrightarrow>
     (\<forall>i \<in> {..<unat (bs ! 2)}.
        \<forall>j \<in> {..<unat (bs ! loop_offset_at bs i)}. cel_header_at bs i j + 3 < 65536)"

definition cel_as_laid_out :: "Uint8 list \<Rightarrow> nat \<Rightarrow> nat \<Rightarrow> Cel \<Rightarrow> bool" where
  "cel_as_laid_out bs i j c \<longleftrightarrow>
     (let h = cel_header_at bs i j; info = unat (bs ! (h + 2))
      in unat (header_offset c) = h \<and>
         width c = bs ! h \<and>
         height c = bs ! (h + 1) \<and>
         unat (is_mirrored c) = info div 128 \<and>
         unat (unmirrored_loop_num c) = info div 16 mod 8 \<and>
         unat (transparency_color c) = info mod 16 \<and>
         unat (data_offset c) = h + 3)"

definition loop_as_laid_out :: "Uint8 list \<Rightarrow> nat \<Rightarrow> Loop \<Rightarrow> bool" where
  "loop_as_laid_out bs i l \<longleftrightarrow>
     unat (offset l) = loop_offset_at bs i \<and>
     num_cels l = bs ! loop_offset_at bs i \<and>
     (\<forall>j \<in> {..<unat (num_cels l)}. cel_as_laid_out bs i j (cels l j))"

definition view_as_laid_out :: "Uint8 list \<Rightarrow> View \<Rightarrow> bool" where
  "view_as_laid_out bs v \<longleftrightarrow>
     num_loops v = bs ! 2 \<and>
     (\<forall>i \<in> {..<unat (num_loops v)}. loop_as_laid_out bs i (loops v i))"

section \<open>Example inputs\<close>

text \<open>
  A View file of 20 bytes: one loop at offset 7 with two cels, 200 and 100 wide, each one
  row high with an empty row of pixel data; and the View that the reads make of it.
\<close>

definition wide_file :: "Uint8 list" where
  "wide_file = [0, 0, 1, 0, 0,  7, 0,  2, 5, 0, 9, 0,  200, 1, 0,  0,  100, 1, 0,  0]"

definition wide_view :: View where
  "wide_view = view0
     \<lparr>loops := (loops view0)
        (0 := loop0
           \<lparr>offset := 7, num_cels := 2,
            cels := (cels loop0)
              (0 := cel0\<lparr>header_offset := 12, data_offset := 15, width := 200, height := 1\<rparr>,
               1 := cel0\<lparr>header_offset := 16, data_offset := 19, width := 100, height := 1\<rparr>)\<rparr>),
      num_loops := 1\<rparr>"

text \<open>
  A truncated View file of 13 bytes: one loop with one cel, 255 wide and 255 high, and no
  pixel data at all; and the View that the reads make of it.
\<close>

definition big_file :: "Uint8 list" where
  "big_file = [0, 0, 1, 0, 0,  7, 0,  1, 3, 0,  255, 255, 0]"

definition big_view :: View where
  "big_view = view0
     \<lparr>loops := (loops view0)
        (0 := loop0
           \<lparr>offset := 7, num_cels := 1,
            cels := (cels loop0)
              (0 := cel0\<lparr>header_offset := 10, data_offset := 13, width := 255, height := 255\<rparr>)\<rparr>),
      num_loops := 1\<rparr>"

text \<open>
  Two contents of the locals at entry: \<open>junk\<close> holds values that are in no example file,
  \<open>junk0\<close> differs from it in that \<open>byte\<close> holds zero.
\<close>

definition junk :: locals where
  "junk = \<lparr>l_rel_offset = 0xBEEF, l_info = 0xAB, l_byte = 0x77\<rparr>"

definition junk0 :: locals where
  "junk0 = \<lparr>l_rel_offset = 0xBEEF, l_info = 0xAB, l_byte = 0\<rparr>"

text \<open>
  An SDL for the examples: a surface of up to 100000 pixels can be created, and
  \<open>SDL_SaveBMP\<close> writes the file (its contents cut down to the two magic bytes).
\<close>

definition sdl_example :: SDL where
  "sdl_example = \<lparr>create_ok = (\<lambda>w h. w * h \<le> 100000),
                   save_bmp = (\<lambda>s name fs. fs(name \<mapsto> [0x42, 0x4D]))\<rparr>"

text \<open>
  \<open>wide_file\<close> cut after 15 bytes: the header of its second cel and all pixel data are
  missing; and the View that the reads make of it.
\<close>

definition cut_file :: "Uint8 list" where
  "cut_file = [0, 0, 1, 0, 0,  7, 0,  2, 5, 0, 9, 0,  200, 1, 0]"

definition cut_view :: View where
  "cut_view = view0
     \<lparr>loops := (loops view0)
        (0 := loop0
           \<lparr>offset := 7, num_cels := 2,
            cels := (cels loop0)
              (0 := cel0\<lparr>header_offset := 12, data_offset := 15, width := 200, height := 1\<rparr>,
               1 := cel0\<lparr>header_offset := 16, data_offset := 16\<rparr>)\<rparr>),
      num_loops := 1\<rparr>"

definition view_files :: files where
  "view_files = [''big'' \<mapsto> big_file, ''cut'' \<mapsto> cut_file, ''ok'' \<mapsto> wide_file]"

text \<open>
  A View file of 22 bytes like \<open>wide_file\<close>, whose second cel has the info byte 0x95
  (mirrored, of loop 1, transparent colour 5) and one row of two runs.
\<close>

definition laid_file :: "Uint8 list" where
  "laid_file = [0, 0, 1, 0, 0,  7, 0,  2, 5, 0, 9, 0,  200, 1, 0,  0,  100, 1, 0x95,  0x31, 0xA5, 0]"

text \<open>
  A View file of 65538 bytes: one loop at offset 7 with one cel whose relative offset
  0xFFF8 puts its header at 65535, the last three bytes of the file (all zero); and the View
  that the reads make of it.
\<close>

definition wrap_file :: "Uint8 list" where
  "wrap_file = [0, 0, 1, 0, 0,  7, 0,  1, 0xF8, 0xFF] @ replicate 65528 0"

definition wrap_view :: View where
  "wrap_view = view0
     \<lparr>loops := (loops view0)
        (0 := loop0
           \<lparr>offset := 7, num_cels := 1,
            cels := (cels loop0)(0 := cel0\<lparr>header_offset := 0xFFFF, data_offset := 2\<rparr>)\<rparr>),
      num_loops := 1\<rparr>"

section \<open>Nibbles and bits of a byte\<close>

lemma and_0x0F: "(b :: Uint8) AND 0x0F = b mod 16"
proof -
  have "b AND mask 4 = b mod 16"
    by (simp only: take_bit_eq_mask [symmetric] take_bit_eq_mod) simp
  then show ?thesis by (simp add: mask_eq_exp_minus_1)
qed

lemma low_nibble_unat: "unat ((b :: Uint8) AND 0x0F) = unat b mod 16"
  by (simp add: and_0x0F unat_mod)

lemma high_nibble_unat: "unat (drop_bit 4 (b :: Uint8) AND 0x0F) = unat b div 16"
proof -
  have "unat (drop_bit 4 b AND 0x0F) = (unat b div 16) mod 16"
    by (simp add: and_0x0F unat_mod unat_div drop_bit_eq_div)
  moreover have "unat b < 256" using unsigned_less [of b, where 'a = nat] by simp
  ultimately show ?thesis by simp
qed

section \<open>One run, one row\<close>

declare row_loop.simps [code]

lemma upt_two_more: "[0..<Suc (Suc m)] = 0 # Suc 0 # map (\<lambda>k. Suc (Suc k)) [0..<m]"
proof -
  have "map (\<lambda>k. Suc (Suc k)) [0..<m] = map Suc (map Suc [0..<m])"
    by simp
  also have "\<dots> = [Suc (Suc 0)..<Suc (Suc m)]"
    by (simp only: map_Suc_upt)
  finally show ?thesis
    by (simp add: upt_conv_Cons del: upt_Suc)
qed

lemma map_upt_add: "map f [0..<a + b] = map f [0..<a] @ map (\<lambda>k. f (a + k)) [0..<b]"
proof -
  have "[a..<a + b] = map (\<lambda>k. a + k) [0..<b]"
    by (induction b) simp_all
  moreover have "[0..<a + b] = [0..<a] @ [a..<a + b]"
    by (rule upt_add_eq_append) simp
  ultimately show ?thesis by (simp add: o_def)
qed

lemma write_run_snd: "snd (write_run cel color y step n x) = x + 2 * int n * step"
  by (induction n arbitrary: x) (simp_all add: Let_def split_beta algebra_simps)

lemma write_run_xs:
  "map fst (fst (write_run cel color y step n x)) = map (\<lambda>k. x + int k * step) [0..<2 * n]"
proof (induction n arbitrary: x)
  case 0
  show ?case by simp
next
  case (Suc n)
  have "map fst (fst (write_run cel color y step (Suc n) x))
        = x # (x + step) # map fst (fst (write_run cel color y step n (x + step + step)))"
    by (simp add: Let_def split_beta)
  also have "\<dots> = x # (x + step) # map (\<lambda>k. (x + step + step) + int k * step) [0..<2 * n]"
    by (simp only: Suc.IH)
  also have "\<dots> = map (\<lambda>k. x + int k * step) [0..<Suc (Suc (2 * n))]"
    by (simp only: upt_two_more) (simp add: o_def algebra_simps)
  finally show ?case by simp
qed

lemma write_run_ys:
  "map (\<lambda>(x, y, c). y) (fst (write_run cel color y0 step n x)) = replicate (2 * n) y0"
  by (induction n arbitrary: x) (simp_all add: Let_def split_beta)

lemma write_run_colours:
  "map (\<lambda>(x, y, c). c) (fst (write_run cel color y0 step n x)) =
   replicate (2 * n)
     (if color \<noteq> transparency_color cel
      then (case pal ! unat color of (r, g, b, a) \<Rightarrow> (r, g, b, 255))
      else (0, 0, 0, 0))"
  by (induction n arbitrary: x) (simp_all add: Let_def split_beta)

lemma write_run_length: "length (fst (write_run cel color y step n x)) = 2 * n"
  using arg_cong [OF write_run_xs, of length] by simp

text \<open>A row that ends: its first run and the rest of the row.\<close>

lemma row_loop_Cons:
  assumes "row_loop cel y step x byte0 f = Some (r # rest, f')"
  obtains b where "b \<noteq> 0"
    "r = (drop_bit 4 b AND 0x0F, b AND 0x0F,
          fst (write_run cel (drop_bit 4 b AND 0x0F) y step (unat (b AND 0x0F)) x))"
    "row_loop cel y step (x + 2 * int (unat (b AND 0x0F)) * step) b (snd (fread_u8 f)) = Some (rest, f')"
  using assms
  by (subst (asm) row_loop.simps)
     (auto simp: Let_def split_beta write_run_snd split: if_splits bind_splits)

lemma writes_of_Cons: "writes_of ((color, count, ws) # runs) = ws @ writes_of runs"
  by (simp add: writes_of_def)

lemma row_length:
  "row_loop cel y step x byte0 f = Some (runs, f') \<Longrightarrow>
   length (writes_of runs) = 2 * (\<Sum>(color, count, ws)\<leftarrow>runs. unat count)"
proof (induction runs arbitrary: x f byte0)
  case Nil
  show ?case by (simp add: writes_of_def)
next
  case (Cons r rest)
  from Cons.prems obtain b where r: "r = (drop_bit 4 b AND 0x0F, b AND 0x0F,
          fst (write_run cel (drop_bit 4 b AND 0x0F) y step (unat (b AND 0x0F)) x))"
    and rest: "row_loop cel y step (x + 2 * int (unat (b AND 0x0F)) * step) b (snd (fread_u8 f)) = Some (rest, f')"
    by (rule row_loop_Cons)
  show ?case
    using Cons.IH [OF rest] by (simp add: r writes_of_Cons write_run_length)
qed

lemma row_xs:
  "row_loop cel y step x byte0 f = Some (runs, f') \<Longrightarrow>
   map fst (writes_of runs) = map (\<lambda>k. x + int k * step) [0..<length (writes_of runs)]"
proof (induction runs arbitrary: x f byte0)
  case Nil
  show ?case by (simp add: writes_of_def)
next
  case (Cons r rest)
  from Cons.prems obtain b where r: "r = (drop_bit 4 b AND 0x0F, b AND 0x0F,
          fst (write_run cel (drop_bit 4 b AND 0x0F) y step (unat (b AND 0x0F)) x))"
    and rest: "row_loop cel y step (x + 2 * int (unat (b AND 0x0F)) * step) b (snd (fread_u8 f)) = Some (rest, f')"
    by (rule row_loop_Cons)
  let ?n = "unat (b AND 0x0F)"
  let ?m = "length (writes_of rest)"
  have "map fst (writes_of (r # rest)) =
        map (\<lambda>k. x + int k * step) [0..<2 * ?n] @
        map (\<lambda>k. (x + 2 * int ?n * step) + int k * step) [0..<?m]"
    using Cons.IH [OF rest] by (simp add: r writes_of_Cons write_run_xs)
  also have "\<dots> = map (\<lambda>k. x + int k * step) [0..<2 * ?n + ?m]"
    by (simp only: map_upt_add [of _ "2 * ?n" ?m]) (simp add: algebra_simps)
  finally show ?case
    by (simp add: r writes_of_Cons write_run_length)
qed

lemma row_ys:
  "row_loop cel y step x byte0 f = Some (runs, f') \<Longrightarrow>
   map (\<lambda>(x, y, c). y) (writes_of runs) = replicate (length (writes_of runs)) y"
proof (induction runs arbitrary: x f byte0)
  case Nil
  show ?case by (simp add: writes_of_def)
next
  case (Cons r rest)
  from Cons.prems obtain b where r: "r = (drop_bit 4 b AND 0x0F, b AND 0x0F,
          fst (write_run cel (drop_bit 4 b AND 0x0F) y step (unat (b AND 0x0F)) x))"
    and rest: "row_loop cel y step (x + 2 * int (unat (b AND 0x0F)) * step) b (snd (fread_u8 f)) = Some (rest, f')"
    by (rule row_loop_Cons)
  show ?case
    using Cons.IH [OF rest]
    by (simp add: r writes_of_Cons write_run_ys write_run_length replicate_add)
qed

lemma row_run_colours:
  "row_loop cel y step x byte0 f = Some (runs, f') \<Longrightarrow> (color, count, ws) \<in> set runs \<Longrightarrow>
   map (\<lambda>(x, y, c). c) ws =
   replicate (2 * unat count)
     (if color \<noteq> transparency_color cel
      then (case pal ! unat color of (r, g, b, a) \<Rightarrow> (r, g, b, 255))
      else (0, 0, 0, 0))"
proof (induction runs arbitrary: x f byte0)
  case Nil
  then show ?case by simp
next
  case (Cons r rest)
  from Cons.prems(1) obtain b where r: "r = (drop_bit 4 b AND 0x0F, b AND 0x0F,
          fst (write_run cel (drop_bit 4 b AND 0x0F) y step (unat (b AND 0x0F)) x))"
    and rest: "row_loop cel y step (x + 2 * int (unat (b AND 0x0F)) * step) b (snd (fread_u8 f)) = Some (rest, f')"
    by (rule row_loop_Cons)
  from Cons.prems(2) consider "(color, count, ws) = r" | "(color, count, ws) \<in> set rest"
    by auto
  then show ?case
  proof cases
    case 1
    then show ?thesis unfolding r by (simp only: prod.inject write_run_colours)
  next
    case 2
    then show ?thesis by (rule Cons.IH [OF rest])
  qed
qed


lemma row_loop_until_zero_aux:
  assumes "content f = pre @ bs @ 0 # post" and "fpos f = length pre" and "0 \<notin> set bs"
  shows "\<exists>runs. row_loop cel y step x byte0 f = Some (runs, f\<lparr>fpos := length pre + length bs + 1\<rparr>) \<and>
           list_all2 (\<lambda>b (color, count, ws).
              unat color = unat b div 16 \<and> unat count = unat b mod 16 \<and> length ws = 2 * unat count)
             bs runs"
  using assms
proof (induction bs arbitrary: pre x f byte0)
  case Nil
  then show ?case
    by (subst row_loop.simps) (simp add: fread_u8_def)
next
  case (Cons b bs)
  let ?f1 = "f\<lparr>fpos := fpos f + 1\<rparr>"
  let ?color = "drop_bit 4 b AND 0x0F"
  let ?count = "b AND 0x0F"
  let ?ws = "fst (write_run cel ?color y step (unat ?count) x)"
  let ?x' = "snd (write_run cel ?color y step (unat ?count) x)"
  have b: "b \<noteq> 0" and bs: "0 \<notin> set bs"
    using Cons.prems(3) by auto
  have read: "fread_u8 f = (Some b, ?f1)"
    using Cons.prems(1,2) by (simp add: fread_u8_def)
  have "content ?f1 = (pre @ [b]) @ bs @ 0 # post" and "fpos ?f1 = length (pre @ [b])"
    using Cons.prems(1,2) by simp_all
  from Cons.IH [OF this bs, of ?x' b] obtain runs where
    runs: "row_loop cel y step ?x' b ?f1 = Some (runs, ?f1\<lparr>fpos := length (pre @ [b]) + length bs + 1\<rparr>)"
    and rel: "list_all2 (\<lambda>b (color, count, ws).
              unat color = unat b div 16 \<and> unat count = unat b mod 16 \<and> length ws = 2 * unat count)
             bs runs"
    by blast
  have step: "row_loop cel y step x byte0 f =
        Some ((?color, ?count, ?ws) # runs, f\<lparr>fpos := length pre + length (b # bs) + 1\<rparr>)"
    using runs by (subst row_loop.simps) (simp add: read b Let_def split_beta)
  have "(\<lambda>b (color, count, ws).
              unat color = unat b div 16 \<and> unat count = unat b mod 16 \<and> length ws = 2 * unat count)
             b (?color, ?count, ?ws)"
    by (simp only: prod.case) (intro conjI high_nibble_unat low_nibble_unat write_run_length)
  then have "list_all2 (\<lambda>b (color, count, ws).
              unat color = unat b div 16 \<and> unat count = unat b mod 16 \<and> length ws = 2 * unat count)
             (b # bs) ((?color, ?count, ?ws) # runs)"
    using rel by (rule list.rel_intros)
  with step show ?case by blast
qed

lemma pairs_append:
  assumes "length xs = 2 * n"
    and "\<forall>k. 2 * k + 1 < length xs \<longrightarrow> g (xs ! (2 * k)) = g (xs ! (2 * k + 1))"
    and "\<forall>k. 2 * k + 1 < length ys \<longrightarrow> g (ys ! (2 * k)) = g (ys ! (2 * k + 1))"
  shows "\<forall>k. 2 * k + 1 < length (xs @ ys) \<longrightarrow> g ((xs @ ys) ! (2 * k)) = g ((xs @ ys) ! (2 * k + 1))"
proof (intro allI impI)
  fix k
  assume k: "2 * k + 1 < length (xs @ ys)"
  show "g ((xs @ ys) ! (2 * k)) = g ((xs @ ys) ! (2 * k + 1))"
  proof (cases "k < n")
    case True
    then have "2 * k + 1 < length xs" using assms(1) by simp
    then show ?thesis using assms(2) by (simp add: nth_append)
  next
    case False
    then obtain j where j: "k = n + j" by (metis le_Suc_ex not_less)
    have "2 * j + 1 < length ys" using k assms(1) j by simp
    then have "g (ys ! (2 * j)) = g (ys ! (2 * j + 1))" using assms(3) by blast
    moreover have "(xs @ ys) ! (2 * k) = ys ! (2 * j)" "(xs @ ys) ! (2 * k + 1) = ys ! (2 * j + 1)"
      using assms(1) j by (simp_all add: nth_append algebra_simps)
    ultimately show ?thesis by simp
  qed
qed

lemma write_run_pairs:
  "2 * k + 1 < length (fst (write_run cel color y step n x)) \<Longrightarrow>
   (\<lambda>(x, y, c). c) (fst (write_run cel color y step n x) ! (2 * k)) =
   (\<lambda>(x, y, c). c) (fst (write_run cel color y step n x) ! (2 * k + 1))"
proof -
  assume k: "2 * k + 1 < length (fst (write_run cel color y step n x))"
  let ?ws = "fst (write_run cel color y step n x)"
  have "(\<lambda>(x, y, c). c) (?ws ! j) = map (\<lambda>(x, y, c). c) ?ws ! j" if "j < length ?ws" for j
    using that by simp
  then show ?thesis
    using k by (simp only: write_run_colours) (simp add: write_run_length)
qed

lemma row_pairs:
  "row_loop cel y step x byte0 f = Some (runs, f') \<Longrightarrow>
   \<forall>k. 2 * k + 1 < length (writes_of runs) \<longrightarrow>
     (\<lambda>(x, y, c). c) (writes_of runs ! (2 * k)) = (\<lambda>(x, y, c). c) (writes_of runs ! (2 * k + 1))"
proof (induction runs arbitrary: x f byte0)
  case Nil
  show ?case by (simp add: writes_of_def)
next
  case (Cons r rest)
  from Cons.prems obtain b where r: "r = (drop_bit 4 b AND 0x0F, b AND 0x0F,
          fst (write_run cel (drop_bit 4 b AND 0x0F) y step (unat (b AND 0x0F)) x))"
    and rest: "row_loop cel y step (x + 2 * int (unat (b AND 0x0F)) * step) b (snd (fread_u8 f)) = Some (rest, f')"
    by (rule row_loop_Cons)
  show ?case
    unfolding r writes_of_Cons
    by (rule pairs_append [OF write_run_length _ Cons.IH [OF rest]]) (simp add: write_run_pairs)
qed

section \<open>Claims about one row\<close>

text \<open>
  C2. Decoding one row reads bytes until a zero byte: when the stream holds the nonzero
  bytes \<open>bs\<close> and then a zero, the row ends, the position is just after the zero, and the
  runs are those of \<open>bs\<close> in order, one for each byte and none for the zero. The colour
  of a run is the high nibble of its byte and its count the low nibble; a run makes two
  pixel writes for each unit of its count, so a byte with low nibble 0 gives a run without
  pixels and the bytes after it are decoded all the same.
\<close>

theorem row_loop_decodes_until_zero:
  assumes "content f = pre @ bs @ 0 # post" and "fpos f = length pre" and "0 \<notin> set bs"
  shows "\<exists>runs. row_loop cel y step x byte0 f = Some (runs, f\<lparr>fpos := length pre + length bs + 1\<rparr>) \<and>
           list_all2 (\<lambda>b (color, count, ws).
              unat color = unat b div 16 \<and> unat count = unat b mod 16 \<and> length ws = 2 * unat count)
             bs runs"
  using assms by (rule row_loop_until_zero_aux)

theorem row_loop_decodes_until_zero_witness:
  "content \<lparr>content = [0x31, 0xA0, 0x00, 0x17], fpos = 0\<rparr> = [] @ [0x31, 0xA0] @ 0 # [0x17] \<and>
   (0 :: Uint8) \<notin> set [0x31, 0xA0] \<and>
   (\<exists>runs. row_loop cel0 0 1 0 0x77 \<lparr>content = [0x31, 0xA0, 0x00, 0x17], fpos = 0\<rparr>
              = Some (runs, \<lparr>content = [0x31, 0xA0, 0x00, 0x17], fpos = 3\<rparr>) \<and>
           list_all2 (\<lambda>b (color, count, ws).
              unat color = unat b div 16 \<and> unat count = unat b mod 16 \<and> length ws = 2 * unat count)
             [0x31, 0xA0 :: Uint8] runs)"
  using row_loop_decodes_until_zero
    [of "\<lparr>content = [0x31, 0xA0, 0x00, 0x17], fpos = 0\<rparr>" "[]" "[0x31, 0xA0]" "[0x17]" cel0 0 1 0 "0x77"]
  by (simp add: numeral_3_eq_3)

text \<open>The three rows the specification gives as examples.\<close>

lemma row_loop_example_terminator:
  "row_loop cel y step x byte0 \<lparr>content = [0x00], fpos = 0\<rparr> = Some ([], \<lparr>content = [0x00], fpos = 1\<rparr>)"
  by (simp add: row_loop.simps fread_u8_def)

lemma row_loop_example_0x31:
  "\<exists>ws. row_loop cel y step x byte0 \<lparr>content = [0x31, 0x00], fpos = 0\<rparr>
         = Some ([(3, 1, ws)], \<lparr>content = [0x31, 0x00], fpos = 2\<rparr>)"
  by (simp add: row_loop.simps fread_u8_def Let_def split_beta drop_bit_eq_div and_0x0F)

lemma row_loop_example_0xA5:
  "\<exists>ws. row_loop cel y step x byte0 \<lparr>content = [0xA5, 0x00], fpos = 0\<rparr>
         = Some ([(10, 5, ws)], \<lparr>content = [0xA5, 0x00], fpos = 2\<rparr>)"
  by (simp add: row_loop.simps fread_u8_def Let_def split_beta drop_bit_eq_div and_0x0F)

text \<open>
  C3. A row of a cel drawn in loop \<open>i\<close> is written right to left when the cel is
  mirrored and its \<open>unmirrored_loop_num\<close> is not \<open>i\<close>: the writes of the row go, in
  order, to \<open>x = cel_x + width * 2 - 1\<close>, then one less each time. In every other case,
  a mirrored cel whose \<open>unmirrored_loop_num\<close> is \<open>i\<close> included, they go to \<open>cel_x\<close>,
  then one more each time.
\<close>

theorem draw_row_direction:
  assumes "draw_row cel i cel_x y byte0 f = Some (runs, f')"
  shows "map fst (writes_of runs) =
           (if is_mirrored cel \<noteq> 0 \<and> unat (unmirrored_loop_num cel) \<noteq> i
            then map (\<lambda>k. cel_x + uint (width cel) * 2 - 1 - int k) [0..<length (writes_of runs)]
            else map (\<lambda>k. cel_x + int k) [0..<length (writes_of runs)])"
proof (cases "is_mirrored cel \<noteq> 0 \<and> unat (unmirrored_loop_num cel) \<noteq> i")
  case True
  then have "row_loop cel y (- 1) (cel_x + uint (width cel) * 2 - 1) byte0 f = Some (runs, f')"
    using assms by (simp add: draw_row_def row_start_def)
  then have "map fst (writes_of runs) =
     map (\<lambda>k. cel_x + uint (width cel) * 2 - 1 + int k * (- 1)) [0..<length (writes_of runs)]"
    by (rule row_xs)
  with True show ?thesis by simp
next
  case False
  then have "row_start cel i cel_x = (cel_x, 1)"
    by (auto simp: row_start_def)
  then have "row_loop cel y 1 cel_x byte0 f = Some (runs, f')"
    using assms by (simp add: draw_row_def)
  then have "map fst (writes_of runs) = map (\<lambda>k. cel_x + int k * 1) [0..<length (writes_of runs)]"
    by (rule row_xs)
  with False show ?thesis by auto
qed

theorem draw_row_direction_witness:
  "\<exists>runs f'. draw_row (cel0\<lparr>width := 2, is_mirrored := 1, unmirrored_loop_num := 0\<rparr>) 1 10 0 0x77
                \<lparr>content = [0x32, 0x00], fpos = 0\<rparr> = Some (runs, f') \<and>
      map fst (writes_of runs) = [13, 12, 11, 10]"
proof -
  let ?cel = "cel0\<lparr>width := 2, is_mirrored := 1, unmirrored_loop_num := 0\<rparr>"
  have "\<exists>ws. draw_row ?cel 1 10 0 0x77 \<lparr>content = [0x32, 0x00], fpos = 0\<rparr>
               = Some ([(3, 2, ws)], \<lparr>content = [0x32, 0x00], fpos = 2\<rparr>) \<and> length ws = 4"
    by (simp add: draw_row_def row_start_def cel0_def row_loop.simps fread_u8_def Let_def split_beta
          drop_bit_eq_div and_0x0F write_run_length)
  then obtain runs f' where
    r: "draw_row ?cel 1 10 0 0x77 \<lparr>content = [0x32, 0x00], fpos = 0\<rparr> = Some (runs, f')"
    and n: "length (writes_of runs) = 4"
    by (auto simp: writes_of_def)
  have "[0..<4] = [0, 1, 2, 3]"
    by (simp add: upt_rec)
  with draw_row_direction [OF r] n have "map fst (writes_of runs) = [13, 12, 11, 10]"
    by (simp add: cel0_def)
  with r show ?thesis by (intro exI conjI)
qed

lemma row_run_nibbles:
  "row_loop cel y step x byte0 f = Some (runs, f') \<Longrightarrow> (color, count, ws) \<in> set runs \<Longrightarrow>
   unat color < 16 \<and> unat count < 16"
proof (induction runs arbitrary: x f byte0)
  case Nil
  then show ?case by simp
next
  case (Cons r rest)
  from Cons.prems(1) obtain b where r: "r = (drop_bit 4 b AND 0x0F, b AND 0x0F,
          fst (write_run cel (drop_bit 4 b AND 0x0F) y step (unat (b AND 0x0F)) x))"
    and rest: "row_loop cel y step (x + 2 * int (unat (b AND 0x0F)) * step) b (snd (fread_u8 f)) = Some (rest, f')"
    by (rule row_loop_Cons)
  from Cons.prems(2) consider "(color, count, ws) = r" | "(color, count, ws) \<in> set rest"
    by auto
  then show ?case
  proof cases
    case 1
    then have "color = drop_bit 4 b AND 0x0F" and "count = b AND 0x0F"
      unfolding r by simp_all
    moreover have "unat b < 256"
      using unsigned_less [of b, where 'a = nat] by simp
    ultimately show ?thesis
      by (simp only: high_nibble_unat low_nibble_unat) simp
  next
    case 2
    then show ?thesis by (rule Cons.IH [OF rest])
  qed
qed

text \<open>
  C6. Every pixel written for a run whose colour index is the cel's
  \<open>transparency_color\<close> is (0, 0, 0, 0), alpha 0, whatever the palette holds at that index;
  for any other index it is the red, green and blue of the palette entry with alpha 255.
  The index is a nibble, so the entry exists.
\<close>

theorem run_pixels_transparent_or_palette:
  assumes "row_loop cel y step x byte0 f = Some (runs, f')"
    and "(color, count, ws) \<in> set runs"
    and "(px, py, c) \<in> set ws"
  shows "unat color < 16 \<and>
         c = (if color = transparency_color cel then (0, 0, 0, 0)
              else (case pal ! unat color of (r, g, b, a) \<Rightarrow> (r, g, b, 255)))"
proof -
  have "c \<in> set (map (\<lambda>(x, y, c). c) ws)"
    using assms(3) by force
  then have "c = (if color \<noteq> transparency_color cel
      then (case pal ! unat color of (r, g, b, a) \<Rightarrow> (r, g, b, 255))
      else (0, 0, 0, 0))"
    by (simp only: row_run_colours [OF assms(1,2)]) (simp split: if_splits)
  moreover have "unat color < 16"
    using row_run_nibbles [OF assms(1,2)] by simp
  ultimately show ?thesis by simp
qed

theorem run_pixels_transparent_or_palette_witness:
  "row_loop (cel0\<lparr>transparency_color := 3\<rparr>) 0 1 0 0x77 \<lparr>content = [0x32, 0x51, 0x00], fpos = 0\<rparr> =
     Some ([(3, 2, [(0, 0, 0, 0, 0, 0), (1, 0, 0, 0, 0, 0), (2, 0, 0, 0, 0, 0), (3, 0, 0, 0, 0, 0)]),
            (5, 1, [(4, 0, 0xAA, 0, 0xAA, 255), (5, 0, 0xAA, 0, 0xAA, 255)])],
           \<lparr>content = [0x32, 0x51, 0x00], fpos = 3\<rparr>) \<and>
   ((0xAA, 0, 0xAA, 255) :: SDL_Color) =
     (if (5 :: Uint8) = transparency_color (cel0\<lparr>transparency_color := 3\<rparr>) then (0, 0, 0, 0)
      else (case pal ! unat (5 :: Uint8) of (r, g, b, a) \<Rightarrow> (r, g, b, 255))) \<and>
   ((0, 0, 0, 0) :: SDL_Color) =
     (if (3 :: Uint8) = transparency_color (cel0\<lparr>transparency_color := 3\<rparr>) then (0, 0, 0, 0)
      else (case pal ! unat (3 :: Uint8) of (r, g, b, a) \<Rightarrow> (r, g, b, 255)))"
proof -
  let ?cel = "cel0\<lparr>transparency_color := 3\<rparr>"
  let ?w1 = "[(0, 0, 0, 0, 0, 0), (1, 0, 0, 0, 0, 0), (2, 0, 0, 0, 0, 0), (3, 0, 0, 0, 0, 0)] :: pixel_write list"
  let ?w2 = "[(4, 0, 0xAA, 0, 0xAA, 255), (5, 0, 0xAA, 0, 0xAA, 255)] :: pixel_write list"
  have r: "row_loop ?cel 0 1 0 0x77 \<lparr>content = [0x32, 0x51, 0x00], fpos = 0\<rparr> =
     Some ([(3, 2, ?w1), (5, 1, ?w2)], \<lparr>content = [0x32, 0x51, 0x00], fpos = 3\<rparr>)"
    by code_simp
  have "(5, 1, ?w2) \<in> set [(3, 2, ?w1), (5, 1, ?w2)]" and "(4, 0, 0xAA, 0, 0xAA, 255) \<in> set ?w2"
    by simp_all
  note p = run_pixels_transparent_or_palette [OF r this]
  have "(3, 2, ?w1) \<in> set [(3, 2, ?w1), (5, 1, ?w2)]" and "(0, 0, 0, 0, 0, 0) \<in> set ?w1"
    by simp_all
  note t = run_pixels_transparent_or_palette [OF r this]
  show ?thesis
    by (intro conjI) (rule r, rule conjunct2 [OF p], rule conjunct2 [OF t])
qed

text \<open>
  C7. A row whose runs decode to \<open>W\<close> source pixels (the sum of the counts, a run of
  count 0 adding nothing) makes exactly \<open>2 * W\<close> pixel writes: source pixel \<open>k\<close> is
  written twice with one colour, at \<open>x + 2k * step\<close> and at the next position in the
  direction of drawing, on the row \<open>y\<close>.
\<close>

theorem row_writes_doubled:
  assumes "row_loop cel y step x byte0 f = Some (runs, f')"
  shows "length (writes_of runs) = 2 * (\<Sum>(color, count, ws)\<leftarrow>runs. unat count) \<and>
         (\<forall>k < (\<Sum>(color, count, ws)\<leftarrow>runs. unat count).
            \<exists>c. writes_of runs ! (2 * k) = (x + int (2 * k) * step, y, c) \<and>
                writes_of runs ! (2 * k + 1) = (x + int (2 * k + 1) * step, y, c))"
proof -
  let ?ws = "writes_of runs"
  let ?W = "\<Sum>(color, count, ws)\<leftarrow>runs. unat count"
  have len: "length ?ws = 2 * ?W"
    using assms by (rule row_length)
  have fst_nth: "fst (?ws ! j) = x + int j * step" if "j < length ?ws" for j
  proof -
    have "fst (?ws ! j) = map fst ?ws ! j" using that by simp
    also have "\<dots> = x + int j * step"
      using that by (simp only: row_xs [OF assms]) simp
    finally show ?thesis .
  qed
  have snd_nth: "fst (snd (?ws ! j)) = y" if "j < length ?ws" for j
  proof -
    have "fst (snd (?ws ! j)) = map (\<lambda>(x, y, c). y) ?ws ! j"
      using that by (simp add: split_beta)
    also have "\<dots> = y"
      using that by (simp only: row_ys [OF assms]) simp
    finally show ?thesis .
  qed
  have pair: "snd (snd (?ws ! (2 * k))) = snd (snd (?ws ! (2 * k + 1)))" if "2 * k + 1 < length ?ws" for k
    using row_pairs [OF assms] that by (simp add: split_beta)
  have "\<exists>c. ?ws ! (2 * k) = (x + int (2 * k) * step, y, c) \<and>
            ?ws ! (2 * k + 1) = (x + int (2 * k + 1) * step, y, c)" if "k < ?W" for k
  proof -
    from that len have k: "2 * k < length ?ws" "2 * k + 1 < length ?ws" by simp_all
    have "?ws ! (2 * k) = (x + int (2 * k) * step, y, snd (snd (?ws ! (2 * k))))"
      using fst_nth [OF k(1)] snd_nth [OF k(1)] by (cases "?ws ! (2 * k)") simp
    moreover have "?ws ! (2 * k + 1) = (x + int (2 * k + 1) * step, y, snd (snd (?ws ! (2 * k))))"
      using fst_nth [OF k(2)] snd_nth [OF k(2)] pair [OF k(2)] by (cases "?ws ! (2 * k + 1)") simp
    ultimately show ?thesis by blast
  qed
  with len show ?thesis by blast
qed


theorem row_writes_doubled_witness:
  "row_loop cel0 5 (- 1) 9 0x77 \<lparr>content = [0x32, 0x50, 0x11, 0x00], fpos = 0\<rparr> =
     Some ([(3, 2, [(9, 5, 0, 170, 170, 255), (8, 5, 0, 170, 170, 255),
                    (7, 5, 0, 170, 170, 255), (6, 5, 0, 170, 170, 255)]),
            (5, 0, []),
            (1, 1, [(5, 5, 0, 0, 170, 255), (4, 5, 0, 0, 170, 255)])],
           \<lparr>content = [0x32, 0x50, 0x11, 0x00], fpos = 4\<rparr>) \<and>
   length (writes_of [(3 :: Uint8, 2 :: Uint8,
                       [(9, 5, 0, 170, 170, 255), (8, 5, 0, 170, 170, 255),
                        (7, 5, 0, 170, 170, 255), (6, 5, 0, 170, 170, 255)]),
                      (5, 0, []),
                      (1, 1, [(5, 5, 0, 0, 170, 255), (4, 5, 0, 0, 170, 255 :: Uint8) :: pixel_write])])
     = 2 * (2 + 0 + 1)"
proof -
  let ?runs = "[(3, 2, [(9, 5, 0, 170, 170, 255), (8, 5, 0, 170, 170, 255),
                    (7, 5, 0, 170, 170, 255), (6, 5, 0, 170, 170, 255)]),
            (5, 0, []),
            (1, 1, [(5, 5, 0, 0, 170, 255), (4, 5, 0, 0, 170, 255)])] :: run list"
  have r: "row_loop cel0 5 (- 1) 9 0x77 \<lparr>content = [0x32, 0x50, 0x11, 0x00], fpos = 0\<rparr> =
     Some (?runs, \<lparr>content = [0x32, 0x50, 0x11, 0x00], fpos = 4\<rparr>)"
    by code_simp
  from row_writes_doubled [OF r]
  have "length (writes_of ?runs) = 2 * (\<Sum>(color, count, ws)\<leftarrow>?runs. unat count)"
    by (rule conjunct1)
  then have n: "length (writes_of ?runs) = 2 * (2 + 0 + 1)"
    by simp
  show ?thesis
    by (intro conjI) (rule r, rule n)
qed

section \<open>The loops of GetSurfaceSize\<close>

lemma size_cel_frame [simp]:
  "cels (size_cel j loop) = cels loop" "offset (size_cel j loop) = offset loop"
  "num_cels (size_cel j loop) = num_cels loop"
  by (simp_all add: size_cel_def Let_def)

lemma size_cel_width [simp]:
  "total_width (size_cel j loop) = total_width loop + width (cels loop j)"
  by (simp add: size_cel_def Let_def)

lemma size_cel_height [simp]:
  "total_height (size_cel j loop) = max (total_height loop) (height (cels loop j))"
  by (auto simp: size_cel_def Let_def max_def)

lemma fold_size_cel_frame [simp]:
  "cels (fold size_cel js loop) = cels loop" "offset (fold size_cel js loop) = offset loop"
  "num_cels (fold size_cel js loop) = num_cels loop"
  by (induction js arbitrary: loop) simp_all

lemma fold_size_cel_width:
  "total_width (fold size_cel [0..<n] loop) = total_width loop + (\<Sum>j<n. width (cels loop j))"
  by (induction n) (simp_all add: algebra_simps)

lemma fold_size_cel_height:
  "total_height (fold size_cel [0..<n] loop) =
   Max (insert (total_height loop) ((\<lambda>j. height (cels loop j)) ` {..<n}))"
proof (induction n)
  case 0
  show ?case by simp
next
  case (Suc n)
  have "insert (total_height loop) ((\<lambda>j. height (cels loop j)) ` {..<Suc n}) =
        insert (height (cels loop n)) (insert (total_height loop) ((\<lambda>j. height (cels loop j)) ` {..<n}))"
    by (auto simp: lessThan_Suc)
  then show ?case
    using Suc.IH by (simp add: max.commute)
qed

lemma unat_sum_word:
  "unat (\<Sum>j<(n::nat). (w j :: Uint8)) = (\<Sum>j<n. unat (w j)) mod 256"
proof (induction n)
  case 0
  show ?case by simp
next
  case (Suc n)
  have "unat ((\<Sum>j<n. w j) + w n) = (unat (\<Sum>j<n. w j) + unat (w n)) mod 256"
    by (simp add: unat_word_ariths)
  also have "\<dots> = ((\<Sum>j<n. unat (w j)) mod 256 + unat (w n)) mod 256"
    by (simp only: Suc.IH)
  also have "\<dots> = ((\<Sum>j<n. unat (w j)) + unat (w n)) mod 256"
    by (simp add: mod_add_left_eq)
  finally show ?case by simp
qed

lemma unat_Max_word:
  assumes "finite A" and "A \<noteq> {}"
  shows "unat (Max A :: Uint8) = Max (unat ` A)"
  using assms
proof (induction rule: finite_ne_induct)
  case (singleton x)
  show ?case by simp
next
  case (insert x F)
  have "unat (max x (Max F)) = max (unat x) (unat (Max F))"
    by (simp add: max_def word_le_nat_alt)
  with insert show ?case by simp
qed


lemma size_loop_frame [simp]:
  "cels (size_loop loop) = cels loop" "offset (size_loop loop) = offset loop"
  "num_cels (size_loop loop) = num_cels loop"
  by (simp_all add: size_loop_def)

lemma size_loop_width:
  "total_width loop = 0 \<Longrightarrow>
   unat (total_width (size_loop loop)) = (\<Sum>j<unat (num_cels loop). unat (width (cels loop j))) mod 256"
  by (simp add: size_loop_def fold_size_cel_width unat_sum_word)

lemma size_loop_height:
  "total_height loop = 0 \<Longrightarrow>
   unat (total_height (size_loop loop)) =
   Max (insert 0 ((\<lambda>j. unat (height (cels loop j))) ` {..<unat (num_cels loop)}))"
  by (simp add: size_loop_def fold_size_cel_height unat_Max_word image_image)

lemma size_view_loop_step:
  "size_view_loop i (r, v) =
     (r\<lparr>rect_w := max (uint (total_width (size_loop (loops v i)))) (rect_w r),
        rect_h := rect_h r + uint (total_height (size_loop (loops v i)))\<rparr>,
      v\<lparr>loops := (loops v)(i := size_loop (loops v i))\<rparr>)"
  by (simp add: size_view_loop_def Let_def max_def)

text \<open>The outer loop after \<open>n\<close> rounds.\<close>

lemma fold_size_view_loop:
  "fold size_view_loop [0..<n] (r, v) =
     (r\<lparr>rect_w := Max (insert (rect_w r) ((\<lambda>i. uint (total_width (size_loop (loops v i)))) ` {..<n})),
        rect_h := rect_h r + (\<Sum>i<n. uint (total_height (size_loop (loops v i))))\<rparr>,
      v\<lparr>loops := (\<lambda>i. if i < n then size_loop (loops v i) else loops v i)\<rparr>)"
proof (induction n)
  case 0
  show ?case by simp
next
  case (Suc n)
  have set: "insert (rect_w r) ((\<lambda>i. uint (total_width (size_loop (loops v i)))) ` {..<Suc n}) =
        insert (uint (total_width (size_loop (loops v n))))
          (insert (rect_w r) ((\<lambda>i. uint (total_width (size_loop (loops v i)))) ` {..<n}))"
    by (auto simp: lessThan_Suc)
  have fn: "(\<lambda>i. if i < n then size_loop (loops v i) else loops v i)(n := size_loop (loops v n)) =
        (\<lambda>i. if i < Suc n then size_loop (loops v i) else loops v i)"
    by (auto simp: fun_eq_iff)
  have "fold size_view_loop [0..<Suc n] (r, v) = size_view_loop n (fold size_view_loop [0..<n] (r, v))"
    by simp
  also have "\<dots> = size_view_loop n
     (r\<lparr>rect_w := Max (insert (rect_w r) ((\<lambda>i. uint (total_width (size_loop (loops v i)))) ` {..<n})),
        rect_h := rect_h r + (\<Sum>i<n. uint (total_height (size_loop (loops v i))))\<rparr>,
      v\<lparr>loops := (\<lambda>i. if i < n then size_loop (loops v i) else loops v i)\<rparr>)"
    by (simp only: Suc.IH)
  also have "\<dots> =
     (r\<lparr>rect_w := Max (insert (rect_w r) ((\<lambda>i. uint (total_width (size_loop (loops v i)))) ` {..<Suc n})),
        rect_h := rect_h r + (\<Sum>i<Suc n. uint (total_height (size_loop (loops v i))))\<rparr>,
      v\<lparr>loops := (\<lambda>i. if i < Suc n then size_loop (loops v i) else loops v i)\<rparr>)"
    by (simp only: size_view_loop_step set) (simp add: fn)
  finally show ?case .
qed


section \<open>What the reads leave alone\<close>

lemma read_cel_offset_totals:
  "read_cel_offset j (f, loop, st) = (f', loop', st') \<Longrightarrow>
   total_width loop' = total_width loop \<and> total_height loop' = total_height loop"
  by (auto simp: read_cel_offset_def Let_def split: prod.splits)

lemma read_cel_header_totals:
  "read_cel_header j (f, loop, st) = (f', loop', st') \<Longrightarrow>
   total_width loop' = total_width loop \<and> total_height loop' = total_height loop"
  by (auto simp: read_cel_header_def Let_def split: prod.splits option.splits)

lemma read_cel_offsets_totals:
  "fold read_cel_offset ks (f, loop, st) = (f', loop', st') \<Longrightarrow>
   total_width loop' = total_width loop \<and> total_height loop' = total_height loop"
proof (induction ks arbitrary: f loop st)
  case Nil
  then show ?case by simp
next
  case (Cons k ks)
  obtain f1 loop1 st1 where s: "read_cel_offset k (f, loop, st) = (f1, loop1, st1)"
    by (cases "read_cel_offset k (f, loop, st)")
  with Cons.prems have "fold read_cel_offset ks (f1, loop1, st1) = (f', loop', st')"
    by simp
  from Cons.IH [OF this] read_cel_offset_totals [OF s] show ?case
    by simp
qed

lemma read_cel_headers_totals:
  "fold read_cel_header ks (f, loop, st) = (f', loop', st') \<Longrightarrow>
   total_width loop' = total_width loop \<and> total_height loop' = total_height loop"
proof (induction ks arbitrary: f loop st)
  case Nil
  then show ?case by simp
next
  case (Cons k ks)
  obtain f1 loop1 st1 where s: "read_cel_header k (f, loop, st) = (f1, loop1, st1)"
    by (cases "read_cel_header k (f, loop, st)")
  with Cons.prems have "fold read_cel_header ks (f1, loop1, st1) = (f', loop', st')"
    by simp
  from Cons.IH [OF this] read_cel_header_totals [OF s] show ?case
    by simp
qed

lemma read_loop_totals:
  assumes "read_loop i (f, view, st) = (f', view', st')"
    and "\<forall>k. total_width (loops view k) = 0 \<and> total_height (loops view k) = 0"
  shows "\<forall>k. total_width (loops view' k) = 0 \<and> total_height (loops view' k) = 0"
proof -
  obtain bn f2 where bn: "fread_u8 (fseek f (unat (offset (loops view i)))) = (bn, f2)"
    by (cases "fread_u8 (fseek f (unat (offset (loops view i))))")
  define loop1 where "loop1 = (case bn of Some n \<Rightarrow> (loops view i)\<lparr>num_cels := n\<rparr> | None \<Rightarrow> loops view i)"
  obtain f3 loop2 st2 where
    a: "fold read_cel_offset [0..<unat (num_cels loop1)] (f2, loop1, st) = (f3, loop2, st2)"
    by (cases "fold read_cel_offset [0..<unat (num_cels loop1)] (f2, loop1, st)")
  obtain f4 loop3 st3 where
    b: "fold read_cel_header [0..<unat (num_cels loop2)] (f3, loop2, st2) = (f4, loop3, st3)"
    by (cases "fold read_cel_header [0..<unat (num_cels loop2)] (f3, loop2, st2)")
  have v: "view' = view\<lparr>loops := (loops view)(i := loop3)\<rparr>"
    using assms(1) a b by (simp add: read_loop_def Let_def bn loop1_def [symmetric])
  have "total_width loop1 = 0 \<and> total_height loop1 = 0"
    using assms(2) by (simp add: loop1_def split: option.splits)
  with read_cel_offsets_totals [OF a] read_cel_headers_totals [OF b]
  have "total_width loop3 = 0 \<and> total_height loop3 = 0"
    by simp
  with assms(2) show ?thesis
    by (simp add: v)
qed

lemma read_loops_totals:
  "fold read_loop ks (f, view, st) = (f', view', st') \<Longrightarrow>
   \<forall>k. total_width (loops view k) = 0 \<and> total_height (loops view k) = 0 \<Longrightarrow>
   \<forall>k. total_width (loops view' k) = 0 \<and> total_height (loops view' k) = 0"
proof (induction ks arbitrary: f view st)
  case Nil
  then show ?case by simp
next
  case (Cons i ks)
  obtain f1 view1 st1 where s: "read_loop i (f, view, st) = (f1, view1, st1)"
    by (cases "read_loop i (f, view, st)")
  with Cons.prems(1) have "fold read_loop ks (f1, view1, st1) = (f', view', st')"
    by simp
  then show ?case
    using read_loop_totals [OF s Cons.prems(2)] by (rule Cons.IH)
qed

lemma read_loop_offsets_totals:
  "fold read_loop_offset ks (f, view) = (f', view') \<Longrightarrow>
   \<forall>k. total_width (loops view k) = 0 \<and> total_height (loops view k) = 0 \<Longrightarrow>
   \<forall>k. total_width (loops view' k) = 0 \<and> total_height (loops view' k) = 0"
proof (induction ks arbitrary: f view)
  case Nil
  then show ?case by simp
next
  case (Cons i ks)
  obtain f1 view1 where s: "read_loop_offset i (f, view) = (f1, view1)"
    by (cases "read_loop_offset i (f, view)")
  with Cons.prems(1) have r: "fold read_loop_offset ks (f1, view1) = (f', view')"
    by simp
  from s Cons.prems(2) have "\<forall>k. total_width (loops view1 k) = 0 \<and> total_height (loops view1 k) = 0"
    by (auto simp: read_loop_offset_def Let_def split: prod.splits)
  with r show ?case
    by (rule Cons.IH)
qed

lemma read_view_totals:
  assumes "read_view st f = (f', view, st')"
  shows "total_width (loops view k) = 0 \<and> total_height (loops view k) = 0"
proof -
  obtain f1 view1 where n: "read_num_loops (f, view0) = (f1, view1)"
    by (cases "read_num_loops (f, view0)")
  obtain f3 view2 where
    a: "fold read_loop_offset [0..<unat (num_loops view1)] (fseek f1 5, view1) = (f3, view2)"
    by (cases "fold read_loop_offset [0..<unat (num_loops view1)] (fseek f1 5, view1)")
  have b: "fold read_loop [0..<unat (num_loops view2)] (f3, view2, st) = (f', view, st')"
    using assms by (simp add: read_view_def Let_def n a)
  have "\<forall>k. total_width (loops view1 k) = 0 \<and> total_height (loops view1 k) = 0"
    using n by (auto simp: read_num_loops_def view0_def loop0_def split: prod.splits option.splits)
  with a have "\<forall>k. total_width (loops view2 k) = 0 \<and> total_height (loops view2 k) = 0"
    by (rule read_loop_offsets_totals)
  with b have "\<forall>k. total_width (loops view k) = 0 \<and> total_height (loops view k) = 0"
    by (rule read_loops_totals)
  then show ?thesis by simp
qed

section \<open>The canvas\<close>

lemma GetSurfaceSize_eq:
  "GetSurfaceSize v =
     (\<lparr>rect_x = 0, rect_y = 0,
       rect_w = Max (insert 0 ((\<lambda>i. uint (total_width (size_loop (loops v i)))) ` {..<unat (num_loops v)})) * 2,
       rect_h = (\<Sum>i<unat (num_loops v). uint (total_height (size_loop (loops v i))))\<rparr>,
      v\<lparr>loops := (\<lambda>i. if i < unat (num_loops v) then size_loop (loops v i) else loops v i)\<rparr>)"
  by (simp add: GetSurfaceSize_def fold_size_view_loop rect0_def)

lemma read_view_wide_file:
  "read_view st \<lparr>content = wide_file, fpos = 0\<rparr> =
     (\<lparr>content = wide_file, fpos = 19\<rparr>, wide_view, st\<lparr>l_rel_offset := 9, l_info := 0\<rparr>)"
  by (simp add: wide_file_def wide_view_def read_view_def read_num_loops_def fseek_def fread_u8_def fread_u16_def
      read_loop_offset_def read_loop_def read_cel_offset_def read_cel_header_def
      view0_def loop0_def cel0_def le16_def ftell_def Let_def upt_rec fun_eq_iff)

text \<open>
  C10. \<open>total_width\<close> is a \<open>Uint8\<close>: for every View that the reads produce, the value
  \<open>GetSurfaceSize\<close> leaves in each loop is the sum of the loop's cel widths modulo 256,
  and the width of the canvas is twice the greatest of these wrapped values (0 when there
  is no loop), not twice the greatest true sum.
\<close>

theorem total_width_wraps_at_256:
  assumes "read_view st f = (f', v, st')"
  shows "(\<forall>i<unat (num_loops v).
            unat (total_width (loops (snd (GetSurfaceSize v)) i)) =
            (\<Sum>j<unat (num_cels (loops v i)). unat (width (cels (loops v i) j))) mod 256) \<and>
         rect_w (fst (GetSurfaceSize v)) =
           2 * Max (insert 0 ((\<lambda>i. int ((\<Sum>j<unat (num_cels (loops v i)). unat (width (cels (loops v i) j))) mod 256))
                                ` {..<unat (num_loops v)}))"
proof -
  have w: "unat (total_width (size_loop (loops v i))) =
           (\<Sum>j<unat (num_cels (loops v i)). unat (width (cels (loops v i) j))) mod 256" for i
    using read_view_totals [OF assms, of i] by (simp add: size_loop_width)
  have "uint (total_width (size_loop (loops v i))) =
        int ((\<Sum>j<unat (num_cels (loops v i)). unat (width (cels (loops v i) j))) mod 256)" for i
    by (simp only: w [symmetric]) simp
  then show ?thesis
    by (simp add: GetSurfaceSize_eq w)
qed

theorem total_width_wraps_at_256_witness:
  "read_view junk \<lparr>content = wide_file, fpos = 0\<rparr> =
     (\<lparr>content = wide_file, fpos = 19\<rparr>, wide_view, junk\<lparr>l_rel_offset := 9, l_info := 0\<rparr>) \<and>
   unat (total_width (loops (snd (GetSurfaceSize wide_view)) 0)) = (200 + 100) mod 256 \<and>
   rect_w (fst (GetSurfaceSize wide_view)) = 2 * 44"
proof -
  note t = total_width_wraps_at_256 [OF read_view_wide_file [of junk]]
  have n: "unat (num_loops wide_view) = 1" "unat (num_cels (loops wide_view 0)) = 2"
    "unat (width (cels (loops wide_view 0) 0)) = 200" "unat (width (cels (loops wide_view 0) (Suc 0))) = 100"
    by (simp_all add: wide_view_def)
  have two: "{..<2::nat} = {0, Suc 0}" by auto
  from t have "unat (total_width (loops (snd (GetSurfaceSize wide_view)) 0)) = (200 + 100) mod 256"
    by (simp add: n two)
  moreover from t have "rect_w (fst (GetSurfaceSize wide_view)) = 2 * 44"
    by (simp add: n two lessThan_Suc)
  ultimately show ?thesis
    using read_view_wide_file [of junk] by (intro conjI)
qed


text \<open>
  C1. The claim asks for canvas width 2 * max (sum of the cel widths). A View file with
  one loop of two cels, 200 and 100 wide and 1 high, has a loop 300 wide and needs a
  canvas 600 wide; \<open>GetSurfaceSize\<close> returns 88 = 2 * (300 mod 256).
\<close>

theorem canvas_width_wrong_past_255:
  "read_view junk \<lparr>content = wide_file, fpos = 0\<rparr> =
     (\<lparr>content = wide_file, fpos = 19\<rparr>, wide_view, junk\<lparr>l_rel_offset := 9, l_info := 0\<rparr>) \<and>
   (\<Sum>j<unat (num_cels (loops wide_view 0)). uint (width (cels (loops wide_view 0) j))) = 300 \<and>
   fst (GetSurfaceSize wide_view) = \<lparr>rect_x = 0, rect_y = 0, rect_w = 88, rect_h = 1\<rparr>"
proof -
  have "unat (num_cels (loops wide_view 0)) = 2"
    by (simp add: wide_view_def)
  moreover have "{..<2::nat} = {0, Suc 0}" by auto
  ultimately have "(\<Sum>j<unat (num_cels (loops wide_view 0)). uint (width (cels (loops wide_view 0) j))) = 300"
    by (simp add: wide_view_def)
  moreover have "fst (GetSurfaceSize wide_view) = \<lparr>rect_x = 0, rect_y = 0, rect_w = 88, rect_h = 1\<rparr>"
    by code_simp
  ultimately show ?thesis
    using read_view_wide_file [of junk] by (intro conjI)
qed

text \<open>Where no loop is wider than 255 the canvas is the one of the specification.\<close>

lemma canvas_size_without_wrap:
  assumes "read_view st f = (f', v, st')"
    and "\<forall>i<unat (num_loops v). (\<Sum>j<unat (num_cels (loops v i)). unat (width (cels (loops v i) j))) < 256"
  shows "rect_w (fst (GetSurfaceSize v)) =
           2 * Max (insert 0 ((\<lambda>i. int (\<Sum>j<unat (num_cels (loops v i)). unat (width (cels (loops v i) j))))
                                ` {..<unat (num_loops v)}))"
    and "rect_h (fst (GetSurfaceSize v)) =
           (\<Sum>i<unat (num_loops v).
              int (Max (insert 0 ((\<lambda>j. unat (height (cels (loops v i) j))) ` {..<unat (num_cels (loops v i))}))))"
proof -
  have w: "unat (total_width (size_loop (loops v i))) =
           (\<Sum>j<unat (num_cels (loops v i)). unat (width (cels (loops v i) j))) mod 256" for i
    using read_view_totals [OF assms(1), of i] by (simp add: size_loop_width)
  have "(\<lambda>i. uint (total_width (size_loop (loops v i)))) ` {..<unat (num_loops v)} =
        (\<lambda>i. int (\<Sum>j<unat (num_cels (loops v i)). unat (width (cels (loops v i) j)))) ` {..<unat (num_loops v)}"
  proof (rule image_cong [OF refl])
    fix i assume "i \<in> {..<unat (num_loops v)}"
    then have "(\<Sum>j<unat (num_cels (loops v i)). unat (width (cels (loops v i) j))) < 256"
      using assms(2) by simp
    then have "unat (total_width (size_loop (loops v i))) =
               (\<Sum>j<unat (num_cels (loops v i)). unat (width (cels (loops v i) j)))"
      by (simp add: w)
    then show "uint (total_width (size_loop (loops v i))) =
               int (\<Sum>j<unat (num_cels (loops v i)). unat (width (cels (loops v i) j)))"
      by (simp only: uint_nat)
  qed
  then show "rect_w (fst (GetSurfaceSize v)) =
           2 * Max (insert 0 ((\<lambda>i. int (\<Sum>j<unat (num_cels (loops v i)). unat (width (cels (loops v i) j))))
                                ` {..<unat (num_loops v)}))"
    by (simp add: GetSurfaceSize_eq)
  have "uint (total_height (size_loop (loops v i))) =
        int (Max (insert 0 ((\<lambda>j. unat (height (cels (loops v i) j))) ` {..<unat (num_cels (loops v i))})))" for i
    using read_view_totals [OF assms(1), of i] by (simp only: size_loop_height [symmetric]) simp
  then show "rect_h (fst (GetSurfaceSize v)) =
           (\<Sum>i<unat (num_loops v).
              int (Max (insert 0 ((\<lambda>j. unat (height (cels (loops v i) j))) ` {..<unat (num_cels (loops v i))}))))"
    by (simp add: GetSurfaceSize_eq)
qed

text \<open>
  C9, as amended. After the reads, \<open>GetSurfaceSize\<close> writes \<open>total_width\<close> and
  \<open>total_height\<close> of the loops and nothing else: \<open>num_loops\<close> is kept, and every loop
  slot is the old one but for these two fields. The drawing loops that follow only read
  the View (\<open>draw_view\<close> returns the surface alone).
\<close>

theorem GetSurfaceSize_writes_only_totals:
  "num_loops (snd (GetSurfaceSize v)) = num_loops v \<and>
   (\<forall>i. loops (snd (GetSurfaceSize v)) i =
         (loops v i)\<lparr>total_width := total_width (loops (snd (GetSurfaceSize v)) i),
                      total_height := total_height (loops (snd (GetSurfaceSize v)) i)\<rparr>)"
proof -
  have "size_loop l = l\<lparr>total_width := total_width (size_loop l), total_height := total_height (size_loop l)\<rparr>" for l
    by (rule Loop.equality) simp_all
  then show ?thesis
    by (simp add: GetSurfaceSize_eq)
qed

text \<open>C9 as stated fails: the View is not the same after \<open>GetSurfaceSize\<close>.\<close>

theorem GetSurfaceSize_changes_view:
  "snd (GetSurfaceSize wide_view) \<noteq> wide_view"
proof
  assume "snd (GetSurfaceSize wide_view) = wide_view"
  then have "total_width (loops (snd (GetSurfaceSize wide_view)) 0) = total_width (loops wide_view 0)"
    by simp
  moreover have "total_width (loops (snd (GetSurfaceSize wide_view)) 0) = 44"
    by code_simp
  moreover have "total_width (loops wide_view 0) = 0"
    by code_simp
  ultimately show False by simp
qed

section \<open>Reads inside the file\<close>

lemma le16_plus: "le16 lo hi = ucast lo + push_bit 8 (ucast hi)"
  unfolding le16_def
  by (rule disjunctive_add [symmetric]) (auto simp: bit_simps dest: bit_imp_le_length)

lemma unat_le16: "unat (le16 lo hi) = unat lo + 256 * unat hi"
proof -
  have b: "unat lo < 256" "unat hi < 256"
    using unsigned_less [of lo, where 'a = nat] unsigned_less [of hi, where 'a = nat] by simp_all
  have "unat (ucast lo :: Uint16) = unat lo" "unat (ucast hi :: Uint16) = unat hi"
    using b by (simp_all add: unsigned_ucast_eq take_bit_nat_eq_self)
  then show ?thesis
    using b by (simp add: le16_plus unat_word_ariths push_bit_eq_mult)
qed

lemma mirrored_bit_unat: "unat (drop_bit 7 ((b :: Uint8) AND 0x80)) = unat b div 128"
proof -
  have "drop_bit 7 (0x80 :: Uint8) = 1"
    by (simp add: drop_bit_eq_div)
  then have "drop_bit 7 (b AND 0x80) = drop_bit 7 b AND 1"
    by (simp only: drop_bit_and)
  also have "\<dots> = (b div 128) mod 2"
    by (simp add: and_one_eq drop_bit_eq_div)
  finally have "unat (drop_bit 7 (b AND 0x80)) = (unat b div 128) mod 2"
    by (simp add: unat_mod unat_div)
  moreover have "unat b < 256" using unsigned_less [of b, where 'a = nat] by simp
  ultimately show ?thesis by simp
qed

lemma loop_num_unat: "unat (drop_bit 4 ((b :: Uint8) AND 0x70)) = (unat b div 16) mod 8"
proof -
  have "drop_bit 4 (0x70 :: Uint8) = mask 3"
    by (simp add: drop_bit_eq_div mask_eq_exp_minus_1)
  then have "drop_bit 4 (b AND 0x70) = drop_bit 4 b AND mask 3"
    by (simp only: drop_bit_and)
  also have "\<dots> = (b div 16) mod 8"
    by (simp only: take_bit_eq_mask [symmetric] take_bit_eq_mod drop_bit_eq_div) simp
  finally show ?thesis
    by (simp add: unat_mod unat_div)
qed

lemma fread_u8_inside:
  "fpos f < length (content f) \<Longrightarrow>
   fread_u8 f = (Some (content f ! fpos f), f\<lparr>fpos := fpos f + 1\<rparr>)"
  by (simp add: fread_u8_def)

lemma fread_u16_inside:
  "fpos f + 2 \<le> length (content f) \<Longrightarrow>
   fread_u16 old f = (le16 (content f ! fpos f) (content f ! (fpos f + 1)), f\<lparr>fpos := fpos f + 2\<rparr>)"
  by (simp add: fread_u16_def)

lemma fold_upt_rule:
  assumes "P 0 s"
    and step: "\<And>k s. k < n \<Longrightarrow> P k s \<Longrightarrow> P (Suc k) (body k s)"
  shows "P n (fold body [0..<n] s)"
proof -
  have "m \<le> n \<Longrightarrow> P m (fold body [0..<m] s)" for m
  proof (induction m)
    case 0
    show ?case using assms(1) by simp
  next
    case (Suc m)
    then have "P m (fold body [0..<m] s)" by simp
    with step [of m] Suc.prems show ?case by simp
  qed
  then show ?thesis by simp
qed

section \<open>The three loops of the reads\<close>

lemma read_loop_offsets_inside:
  assumes "content f = bs" and "fpos f = 5" and "5 + 2 * n \<le> length bs"
  shows "content (fst (fold read_loop_offset [0..<n] (f, v))) = bs \<and>
         num_loops (snd (fold read_loop_offset [0..<n] (f, v))) = num_loops v \<and>
         (\<forall>i<n. unat (offset (loops (snd (fold read_loop_offset [0..<n] (f, v))) i)) = loop_offset_at bs i)"
proof -
  let ?P = "\<lambda>k (s :: FILE \<times> View). content (fst s) = bs \<and> fpos (fst s) = 5 + 2 * k \<and> num_loops (snd s) = num_loops v \<and>
              (\<forall>i<k. unat (offset (loops (snd s) i)) = loop_offset_at bs i)"
  have "?P n (fold read_loop_offset [0..<n] (f, v))"
  proof (rule fold_upt_rule [where P = ?P])
    show "?P 0 (f, v)" using assms by simp
  next
    fix k and s :: "FILE \<times> View"
    assume k: "k < n" and P: "?P k s"
    obtain f1 v1 where s: "s = (f1, v1)" by (cases s)
    from P s have c: "content f1 = bs" "fpos f1 = 5 + 2 * k" "num_loops v1 = num_loops v"
      and old: "\<forall>i<k. unat (offset (loops v1 i)) = loop_offset_at bs i"
      by simp_all
    let ?x = "le16 (bs ! (5 + 2 * k)) (bs ! (5 + 2 * k + 1))"
    let ?s' = "(f1\<lparr>fpos := fpos f1 + 2\<rparr>, v1\<lparr>loops := (loops v1)(k := (loops v1 k)\<lparr>offset := ?x\<rparr>)\<rparr>)"
    have "fpos f1 + 2 \<le> length (content f1)"
      using c k assms(3) by simp
    then have r: "read_loop_offset k s = ?s'"
      by (simp add: s read_loop_offset_def fread_u16_inside c)
    have "?P (Suc k) ?s'"
      using c old by (auto simp: less_Suc_eq unat_le16 loop_offset_at_def le16_at_def)
    then show "?P (Suc k) (read_loop_offset k s)"
      unfolding r .
  qed
  then show ?thesis by simp
qed

lemma read_cel_offsets_inside:
  assumes "content f = bs" and "fpos f = unat (offset l) + 1" and "unat (offset l) + 1 + 2 * n \<le> length bs"
  shows "content (fst (fold read_cel_offset [0..<n] (f, l, st))) = bs \<and>
         offset (fst (snd (fold read_cel_offset [0..<n] (f, l, st)))) = offset l \<and>
         num_cels (fst (snd (fold read_cel_offset [0..<n] (f, l, st)))) = num_cels l \<and>
         (\<forall>j<n. unat (header_offset (cels (fst (snd (fold read_cel_offset [0..<n] (f, l, st)))) j)) =
                    (unat (offset l) + le16_at bs (unat (offset l) + 1 + 2 * j)) mod 65536)"
proof -
  let ?o = "unat (offset l)"
  let ?P = "\<lambda>k (s :: FILE \<times> Loop \<times> locals). content (fst s) = bs \<and> fpos (fst s) = ?o + 1 + 2 * k \<and>
              offset (fst (snd s)) = offset l \<and> num_cels (fst (snd s)) = num_cels l \<and>
              (\<forall>j<k. unat (header_offset (cels (fst (snd s)) j)) = (?o + le16_at bs (?o + 1 + 2 * j)) mod 65536)"
  have "?P n (fold read_cel_offset [0..<n] (f, l, st))"
  proof (rule fold_upt_rule [where P = ?P])
    show "?P 0 (f, l, st)" using assms by simp
  next
    fix k and s :: "FILE \<times> Loop \<times> locals"
    assume k: "k < n" and P: "?P k s"
    obtain f1 l1 st1 where s: "s = (f1, l1, st1)" by (cases s)
    from P s have c: "content f1 = bs" "fpos f1 = ?o + 1 + 2 * k" "offset l1 = offset l" "num_cels l1 = num_cels l"
      and old: "\<forall>j<k. unat (header_offset (cels l1 j)) = (?o + le16_at bs (?o + 1 + 2 * j)) mod 65536"
      by simp_all
    let ?rel = "le16 (bs ! (?o + 1 + 2 * k)) (bs ! (?o + 1 + 2 * k + 1))"
    let ?s' = "(f1\<lparr>fpos := fpos f1 + 2\<rparr>,
               l1\<lparr>cels := (cels l1)(k := (cels l1 k)\<lparr>header_offset := offset l1 + ?rel\<rparr>)\<rparr>,
               st1\<lparr>l_rel_offset := ?rel\<rparr>)"
    have "fpos f1 + 2 \<le> length (content f1)"
      using c k assms(3) by simp
    then have r: "read_cel_offset k s = ?s'"
      by (simp add: s read_cel_offset_def fread_u16_inside c)
    have "unat (offset l + ?rel) = (?o + le16_at bs (?o + 1 + 2 * k)) mod 65536"
      by (simp add: unat_word_ariths unat_le16 le16_at_def)
    then have "?P (Suc k) ?s'"
      using c old by (auto simp: less_Suc_eq)
    then show "?P (Suc k) (read_cel_offset k s)"
      unfolding r .
  qed
  then show ?thesis by simp
qed

lemma read_cel_header_inside:
  assumes "content f = bs" and "unat (header_offset (cels l j)) + 3 \<le> length bs"
  shows "read_cel_header j (f, l, st) =
     (f\<lparr>fpos := unat (header_offset (cels l j)) + 3\<rparr>,
      l\<lparr>cels := (cels l)(j := (cels l j)
              \<lparr>width := bs ! unat (header_offset (cels l j)),
               height := bs ! (unat (header_offset (cels l j)) + 1),
               is_mirrored := drop_bit 7 (bs ! (unat (header_offset (cels l j)) + 2) AND 0x80),
               unmirrored_loop_num := drop_bit 4 (bs ! (unat (header_offset (cels l j)) + 2) AND 0x70),
               transparency_color := bs ! (unat (header_offset (cels l j)) + 2) AND 0x0F,
               data_offset := of_nat (unat (header_offset (cels l j)) + 3)\<rparr>)\<rparr>,
      st\<lparr>l_info := bs ! (unat (header_offset (cels l j)) + 2)\<rparr>)"
  using assms
  by (simp add: read_cel_header_def fseek_def fread_u8_def ftell_def Let_def numeral_3_eq_3)

lemma read_cel_headers_inside:
  assumes "content f = bs"
    and hdr: "\<forall>j<n. unat (header_offset (cels l j)) = cel_header_at bs i j"
    and inb: "\<forall>j<n. cel_header_at bs i j + 3 \<le> length bs"
    and fit: "\<forall>j<n. cel_header_at bs i j + 3 < 65536"
  shows "content (fst (fold read_cel_header [0..<n] (f, l, st))) = bs \<and>
         offset (fst (snd (fold read_cel_header [0..<n] (f, l, st)))) = offset l \<and>
         num_cels (fst (snd (fold read_cel_header [0..<n] (f, l, st)))) = num_cels l \<and>
         (\<forall>j<n. cel_as_laid_out bs i j (cels (fst (snd (fold read_cel_header [0..<n] (f, l, st)))) j))"
proof -
  let ?P = "\<lambda>k (s :: FILE \<times> Loop \<times> locals). content (fst s) = bs \<and>
              offset (fst (snd s)) = offset l \<and> num_cels (fst (snd s)) = num_cels l \<and>
              (\<forall>j. k \<le> j \<longrightarrow> cels (fst (snd s)) j = cels l j) \<and>
              (\<forall>j<k. cel_as_laid_out bs i j (cels (fst (snd s)) j))"
  have "?P n (fold read_cel_header [0..<n] (f, l, st))"
  proof (rule fold_upt_rule [where P = ?P])
    show "?P 0 (f, l, st)" using assms by simp
  next
    fix k and s :: "FILE \<times> Loop \<times> locals"
    assume k: "k < n" and P: "?P k s"
    obtain f1 l1 st1 where s: "s = (f1, l1, st1)" by (cases s)
    from P s have c: "content f1 = bs" "offset l1 = offset l" "num_cels l1 = num_cels l"
      and rest: "\<forall>j. k \<le> j \<longrightarrow> cels l1 j = cels l j"
      and old: "\<forall>j<k. cel_as_laid_out bs i j (cels l1 j)"
      by simp_all
    let ?h = "cel_header_at bs i k"
    have h: "unat (header_offset (cels l1 k)) = ?h"
      using rest hdr k by simp
    have in_file: "?h + 3 \<le> length bs" and fits: "?h + 3 < 65536"
      using inb fit k by simp_all
    let ?c = "(cels l1 k)
              \<lparr>width := bs ! ?h,
               height := bs ! (?h + 1),
               is_mirrored := drop_bit 7 (bs ! (?h + 2) AND 0x80),
               unmirrored_loop_num := drop_bit 4 (bs ! (?h + 2) AND 0x70),
               transparency_color := bs ! (?h + 2) AND 0x0F,
               data_offset := of_nat (?h + 3)\<rparr>"
    let ?s' = "(f1\<lparr>fpos := ?h + 3\<rparr>, l1\<lparr>cels := (cels l1)(k := ?c)\<rparr>, st1\<lparr>l_info := bs ! (?h + 2)\<rparr>)"
    have r: "read_cel_header k (f1, l1, st1) = ?s'"
      using read_cel_header_inside [of f1 bs l1 k st1] c(1) in_file
      by (simp only: h)
    have "unat (of_nat (?h + 3) :: Uint16) = ?h + 3"
      using fits by (simp add: unat_of_nat del: of_nat_add)
    then have "cel_as_laid_out bs i k ?c"
      by (simp add: cel_as_laid_out_def Let_def h mirrored_bit_unat loop_num_unat low_nibble_unat
            del: drop_bit_and of_nat_add)
    then have "?P (Suc k) ?s'"
      using c rest old by (auto simp: less_Suc_eq)
    then show "?P (Suc k) (read_cel_header k s)"
      unfolding s r .
  qed
  then show ?thesis by simp
qed

lemma read_loop_inside:
  assumes "content f = bs"
    and "unat (offset (loops v i)) = loop_offset_at bs i"
    and "loop_offset_at bs i < length bs"
    and "loop_offset_at bs i + 1 + 2 * unat (bs ! loop_offset_at bs i) \<le> length bs"
    and "\<forall>j<unat (bs ! loop_offset_at bs i). cel_header_at bs i j + 3 \<le> length bs"
    and "\<forall>j<unat (bs ! loop_offset_at bs i). cel_header_at bs i j + 3 < 65536"
  shows "\<exists>f' l' st'. read_loop i (f, v, st) = (f', v\<lparr>loops := (loops v)(i := l')\<rparr>, st') \<and>
           content f' = bs \<and> loop_as_laid_out bs i l'"
proof -
  let ?o = "loop_offset_at bs i"
  let ?n = "unat (bs ! ?o)"
  let ?f2 = "f\<lparr>fpos := ?o + 1\<rparr>"
  let ?loop1 = "(loops v i)\<lparr>num_cels := bs ! ?o\<rparr>"
  have r1: "fread_u8 (fseek f (unat (offset (loops v i)))) = (Some (bs ! ?o), ?f2)"
    using assms(1,2,3) by (simp add: fseek_def fread_u8_def)
  obtain f3 loop2 st2 where a: "fold read_cel_offset [0..<?n] (?f2, ?loop1, st) = (f3, loop2, st2)"
    by (cases "fold read_cel_offset [0..<?n] (?f2, ?loop1, st)")
  have "content ?f2 = bs" "fpos ?f2 = unat (offset ?loop1) + 1" "unat (offset ?loop1) + 1 + 2 * ?n \<le> length bs"
    using assms(1,2,4) by simp_all
  from read_cel_offsets_inside [OF this, of st] a have
    c3: "content f3 = bs" and l2: "offset loop2 = offset ?loop1" "num_cels loop2 = num_cels ?loop1"
    and h2: "\<forall>j<?n. unat (header_offset (cels loop2 j)) =
                    (unat (offset ?loop1) + le16_at bs (unat (offset ?loop1) + 1 + 2 * j)) mod 65536"
    by simp_all
  have "\<forall>j<?n. unat (header_offset (cels loop2 j)) = cel_header_at bs i j"
  proof (intro allI impI)
    fix j assume j: "j < ?n"
    with assms(6) have "cel_header_at bs i j + 3 < 65536" by blast
    then have "(?o + le16_at bs (?o + 1 + 2 * j)) mod 65536 = cel_header_at bs i j"
      by (simp add: cel_header_at_def)
    with h2 j assms(2) show "unat (header_offset (cels loop2 j)) = cel_header_at bs i j"
      by simp
  qed
  note hd = read_cel_headers_inside [OF c3 this assms(5,6), of st2]
  obtain f4 loop3 st3 where b: "fold read_cel_header [0..<?n] (f3, loop2, st2) = (f4, loop3, st3)"
    by (cases "fold read_cel_header [0..<?n] (f3, loop2, st2)")
  with hd have c4: "content f4 = bs" and l3: "offset loop3 = offset loop2" "num_cels loop3 = num_cels loop2"
    and laid: "\<forall>j<?n. cel_as_laid_out bs i j (cels loop3 j)"
    by simp_all
  have "read_loop i (f, v, st) = (f4, v\<lparr>loops := (loops v)(i := loop3)\<rparr>, st3)"
    using a b by (simp add: read_loop_def Let_def r1 l2)
  moreover have "loop_as_laid_out bs i loop3"
    using laid l2 l3 assms(2) by (simp add: loop_as_laid_out_def)
  ultimately show ?thesis
    using c4 by blast
qed

lemma read_view_inside:
  assumes "view_in_bounds bs" and "headers_fit bs"
  shows "view_as_laid_out bs (fst (snd (read_view st \<lparr>content = bs, fpos = 0\<rparr>)))"
proof -
  let ?N = "unat (bs ! 2)"
  let ?f1 = "\<lparr>content = bs, fpos = 3\<rparr>"
  let ?view1 = "view0\<lparr>num_loops := bs ! 2\<rparr>"
  from assms(1) have len: "2 < length bs" "5 + 2 * ?N \<le> length bs"
    and loop_ok: "\<And>i. i < ?N \<Longrightarrow> loop_offset_at bs i < length bs \<and>
        loop_offset_at bs i + 1 + 2 * unat (bs ! loop_offset_at bs i) \<le> length bs \<and>
        (\<forall>j<unat (bs ! loop_offset_at bs i). cel_header_at bs i j + 3 \<le> length bs)"
    by (simp_all add: view_in_bounds_def)
  from assms(2) have fit: "\<And>i. i < ?N \<Longrightarrow>
        \<forall>j<unat (bs ! loop_offset_at bs i). cel_header_at bs i j + 3 < 65536"
    by (simp add: headers_fit_def)
  have r0: "read_num_loops (\<lparr>content = bs, fpos = 0\<rparr>, view0) = (?f1, ?view1)"
    using len(1) by (simp add: read_num_loops_def fseek_def fread_u8_def numeral_3_eq_3)
  obtain f3 view2 where a: "fold read_loop_offset [0..<?N] (fseek ?f1 5, ?view1) = (f3, view2)"
    by (cases "fold read_loop_offset [0..<?N] (fseek ?f1 5, ?view1)")
  have "content (fseek ?f1 5) = bs" "fpos (fseek ?f1 5) = 5"
    by (simp_all add: fseek_def)
  from read_loop_offsets_inside [OF this len(2), of ?view1] a have
    c3: "content f3 = bs" and n2: "num_loops view2 = bs ! 2"
    and offs: "\<forall>i<?N. unat (offset (loops view2 i)) = loop_offset_at bs i"
    by simp_all
  let ?P = "\<lambda>k (s :: FILE \<times> View \<times> locals). content (fst s) = bs \<and> num_loops (fst (snd s)) = bs ! 2 \<and>
              (\<forall>i. k \<le> i \<and> i < ?N \<longrightarrow> unat (offset (loops (fst (snd s)) i)) = loop_offset_at bs i) \<and>
              (\<forall>i<k. loop_as_laid_out bs i (loops (fst (snd s)) i))"
  have "?P ?N (fold read_loop [0..<?N] (f3, view2, st))"
  proof (rule fold_upt_rule [where P = ?P])
    show "?P 0 (f3, view2, st)" using c3 n2 offs by simp
  next
    fix k and s :: "FILE \<times> View \<times> locals"
    assume k: "k < ?N" and P: "?P k s"
    obtain f v st1 where s: "s = (f, v, st1)" by (cases s)
    from P s have c: "content f = bs" "num_loops v = bs ! 2"
      and later: "\<forall>i. k \<le> i \<and> i < ?N \<longrightarrow> unat (offset (loops v i)) = loop_offset_at bs i"
      and old: "\<forall>i<k. loop_as_laid_out bs i (loops v i)"
      by simp_all
    have o: "unat (offset (loops v k)) = loop_offset_at bs k"
      using later k by simp
    from loop_ok [OF k] have
      "loop_offset_at bs k < length bs"
      "loop_offset_at bs k + 1 + 2 * unat (bs ! loop_offset_at bs k) \<le> length bs"
      "\<forall>j<unat (bs ! loop_offset_at bs k). cel_header_at bs k j + 3 \<le> length bs"
      by simp_all
    from read_loop_inside [OF c(1) o this fit [OF k], of st1] obtain f' l' st' where
      r: "read_loop k (f, v, st1) = (f', v\<lparr>loops := (loops v)(k := l')\<rparr>, st')"
      and c': "content f' = bs" and laid: "loop_as_laid_out bs k l'"
      by blast
    have "?P (Suc k) (f', v\<lparr>loops := (loops v)(k := l')\<rparr>, st')"
      using c c' later old laid by (auto simp: less_Suc_eq)
    then show "?P (Suc k) (read_loop k s)"
      unfolding s r .
  qed
  moreover have "read_view st \<lparr>content = bs, fpos = 0\<rparr> = fold read_loop [0..<?N] (f3, view2, st)"
    using a by (simp add: read_view_def r0 n2)
  ultimately show ?thesis
    by (simp add: view_as_laid_out_def)
qed

text \<open>The example file \<open>laid_file\<close>: its bytes and the offsets of its table.\<close>

lemma laid_file_bytes:
  "length laid_file = 22" "laid_file ! 2 = 1" "laid_file ! 7 = 2"
  "laid_file ! 16 = 100" "laid_file ! 17 = 1" "laid_file ! 18 = 0x95"
  by (simp_all add: laid_file_def)

lemma laid_file_offsets:
  "loop_offset_at laid_file 0 = 7"
  "cel_header_at laid_file 0 0 = 12"
  "cel_header_at laid_file 0 (Suc 0) = 16"
  by (simp_all add: loop_offset_at_def cel_header_at_def le16_at_def laid_file_def)

lemma laid_file_in_bounds: "view_in_bounds laid_file \<and> headers_fit laid_file"
proof -
  have "{..<unat (1 :: Uint8)} = {0}" and "{..<unat (2 :: Uint8)} = {0, Suc 0}"
    by auto
  then show ?thesis
    by (simp add: view_in_bounds_def headers_fit_def laid_file_bytes laid_file_offsets)
qed

text \<open>
  C5, as amended. For a file that holds every field the reads ask for, and in which the
  position after each cel header is below 65536, the reads return the View that is laid
  out in the file: \<open>num_loops\<close> is the byte at offset 2; the offset of loop \<open>i\<close> is the
  little-endian 16-bit value at \<open>5 + 2i\<close>; \<open>num_cels\<close> is the byte at the loop offset, and
  the 16-bit values after it, added to the loop offset, are the cel header offsets in
  order; at the header offset stand \<open>width\<close>, \<open>height\<close> and the info byte, whose bit 7 is
  \<open>is_mirrored\<close>, bits 6 to 4 \<open>unmirrored_loop_num\<close> and bits 3 to 0
  \<open>transparency_color\<close>; \<open>data_offset\<close> is the position after these three bytes.
\<close>

theorem read_view_follows_layout:
  assumes "view_in_bounds bs" and "headers_fit bs"
  shows "view_as_laid_out bs (fst (snd (read_view st \<lparr>content = bs, fpos = 0\<rparr>)))"
  using assms by (rule read_view_inside)

theorem read_view_follows_layout_witness:
  "view_in_bounds laid_file \<and> headers_fit laid_file \<and>
   (\<exists>f v st'. read_view junk \<lparr>content = laid_file, fpos = 0\<rparr> = (f, v, st') \<and>
      num_loops v = 1 \<and> unat (offset (loops v 0)) = 7 \<and> num_cels (loops v 0) = 2 \<and>
      unat (header_offset (cels (loops v 0) (Suc 0))) = 16 \<and>
      width (cels (loops v 0) (Suc 0)) = 100 \<and>
      height (cels (loops v 0) (Suc 0)) = 1 \<and>
      unat (is_mirrored (cels (loops v 0) (Suc 0))) = 1 \<and>
      unat (unmirrored_loop_num (cels (loops v 0) (Suc 0))) = 1 \<and>
      unat (transparency_color (cels (loops v 0) (Suc 0))) = 5 \<and>
      unat (data_offset (cels (loops v 0) (Suc 0))) = 19)"
proof -
  note b = laid_file_in_bounds
  obtain f v st' where r: "read_view junk \<lparr>content = laid_file, fpos = 0\<rparr> = (f, v, st')"
    by (cases "read_view junk \<lparr>content = laid_file, fpos = 0\<rparr>")
  from read_view_follows_layout [OF conjunct1 [OF b] conjunct2 [OF b], of junk] r
  have l: "view_as_laid_out laid_file v"
    by simp
  from l have n: "num_loops v = 1"
    by (simp add: view_as_laid_out_def laid_file_bytes)
  have "(0 :: nat) \<in> {..<unat (1 :: Uint8)}"
    by simp
  with l n have l0: "loop_as_laid_out laid_file 0 (loops v 0)"
    unfolding view_as_laid_out_def by metis
  then have nc: "unat (offset (loops v 0)) = 7" "num_cels (loops v 0) = 2"
    by (simp_all add: loop_as_laid_out_def laid_file_offsets laid_file_bytes)
  have "Suc 0 \<in> {..<unat (2 :: Uint8)}"
    by simp
  with l0 nc have c: "cel_as_laid_out laid_file 0 (Suc 0) (cels (loops v 0) (Suc 0))"
    unfolding loop_as_laid_out_def by metis
  from c have "unat (header_offset (cels (loops v 0) (Suc 0))) = 16 \<and>
      width (cels (loops v 0) (Suc 0)) = 100 \<and>
      height (cels (loops v 0) (Suc 0)) = 1 \<and>
      unat (is_mirrored (cels (loops v 0) (Suc 0))) = 1 \<and>
      unat (unmirrored_loop_num (cels (loops v 0) (Suc 0))) = 1 \<and>
      unat (transparency_color (cels (loops v 0) (Suc 0))) = 5 \<and>
      unat (data_offset (cels (loops v 0) (Suc 0))) = 19"
    unfolding cel_as_laid_out_def Let_def laid_file_offsets
    by (simp add: laid_file_bytes)
  with b r n nc show ?thesis
    by blast
qed

text \<open>The example file \<open>wrap_file\<close>: its bytes, and what the reads make of it.\<close>

lemma wrap_file_bytes:
  "length wrap_file = 65538" "wrap_file ! 2 = 1" "wrap_file ! 5 = 7" "wrap_file ! 6 = 0"
  "wrap_file ! 7 = 1" "wrap_file ! 8 = 0xF8" "wrap_file ! 9 = 0xFF"
  "wrap_file ! 65535 = 0" "wrap_file ! 65536 = 0" "wrap_file ! 65537 = 0"
  by (simp_all add: wrap_file_def nth_append)

lemma wrap_file_offsets:
  "loop_offset_at wrap_file 0 = 7" "cel_header_at wrap_file 0 0 = 65535"
  by (simp_all add: loop_offset_at_def cel_header_at_def le16_at_def wrap_file_bytes)

lemma wrap_file_in_bounds: "view_in_bounds wrap_file"
proof -
  have "{..<unat (1 :: Uint8)} = {0}"
    by auto
  then show ?thesis
    by (simp add: view_in_bounds_def wrap_file_bytes wrap_file_offsets)
qed

lemma read_view_wrap_file:
  "read_view st \<lparr>content = wrap_file, fpos = 0\<rparr> =
     (\<lparr>content = wrap_file, fpos = 65538\<rparr>, wrap_view, st\<lparr>l_rel_offset := 0xFFF8, l_info := 0\<rparr>)"
  by (simp add: wrap_view_def read_view_def read_num_loops_def fseek_def fread_u8_def fread_u16_def
      read_loop_offset_def read_loop_def read_cel_offset_def read_cel_header_def
      view0_def loop0_def cel0_def le16_def ftell_def Let_def upt_rec fun_eq_iff wrap_file_bytes)

text \<open>
  C5 as stated fails: every field of \<open>wrap_file\<close> lies inside the file, its one cel
  header stands at 65535 and the stream is at 65538 after it, yet \<open>data_offset\<close>, a
  \<open>Uint16\<close>, is 2.
\<close>

theorem data_offset_wraps_at_65536:
  "view_in_bounds wrap_file \<and>
   cel_header_at wrap_file 0 0 = 65535 \<and>
   fpos (fst (read_view junk \<lparr>content = wrap_file, fpos = 0\<rparr>)) = 65538 \<and>
   unat (data_offset (cels (loops (fst (snd (read_view junk \<lparr>content = wrap_file, fpos = 0\<rparr>))) 0) 0)) = 2 \<and>
   \<not> view_as_laid_out wrap_file (fst (snd (read_view junk \<lparr>content = wrap_file, fpos = 0\<rparr>)))"
proof -
  have d: "unat (data_offset (cels (loops wrap_view 0) 0)) = 2"
    by (simp add: wrap_view_def)
  have "\<not> view_as_laid_out wrap_file wrap_view"
  proof
    assume l: "view_as_laid_out wrap_file wrap_view"
    have n: "num_loops wrap_view = 1" "num_cels (loops wrap_view 0) = 1"
      by (simp_all add: wrap_view_def)
    have z: "(0 :: nat) \<in> {..<unat (1 :: Uint8)}"
      by simp
    from l n z have "loop_as_laid_out wrap_file 0 (loops wrap_view 0)"
      unfolding view_as_laid_out_def by metis
    with n z have "cel_as_laid_out wrap_file 0 0 (cels (loops wrap_view 0) 0)"
      unfolding loop_as_laid_out_def by metis
    then have "unat (data_offset (cels (loops wrap_view 0) 0)) = 65535 + 3"
      unfolding cel_as_laid_out_def Let_def wrap_file_offsets by blast
    with d show False by simp
  qed
  with d show ?thesis
    by (simp add: read_view_wrap_file wrap_file_in_bounds wrap_file_offsets)
qed

section \<open>Loops that end\<close>

lemma for_each_append:
  "for_each (xs @ ys) body s =
     (case for_each xs body s of None \<Rightarrow> None | Some s' \<Rightarrow> for_each ys body s')"
  by (induction xs arbitrary: s) (auto split: option.splits)

lemma for_each_upt_rule:
  assumes "P 0 s"
    and step: "\<And>k s. k < n \<Longrightarrow> P k s \<Longrightarrow> \<exists>s'. body k s = Some s' \<and> P (Suc k) s'"
  shows "\<exists>s'. for_each [0..<n] body s = Some s' \<and> P n s'"
proof -
  have "m \<le> n \<Longrightarrow> \<exists>s'. for_each [0..<m] body s = Some s' \<and> P m s'" for m
  proof (induction m)
    case 0
    show ?case using assms(1) by simp
  next
    case (Suc m)
    then obtain s1 where s1: "for_each [0..<m] body s = Some s1" "P m s1"
      by auto
    from step [of m s1] Suc.prems s1(2) obtain s2 where "body m s1 = Some s2" "P (Suc m) s2"
      by auto
    with s1 show ?case
      by (simp add: for_each_append)
  qed
  then show ?thesis by simp
qed

text \<open>The reads change neither the bytes of the file nor what \<open>byte\<close> holds.\<close>

lemma fold_kept:
  assumes "\<And>i s. g (body i s) = g s"
  shows "g (fold body ks s) = g s"
  by (induction ks arbitrary: s) (simp_all add: assms)

lemma fread_u8_content: "content (snd (fread_u8 f)) = content f"
  by (simp add: fread_u8_def)

lemma fread_u16_content: "content (snd (fread_u16 old f)) = content f"
  by (simp add: fread_u16_def)

lemma read_loop_offset_content: "content (fst (read_loop_offset i s)) = content (fst s)"
  by (simp add: read_loop_offset_def split_beta fread_u16_content)

lemma read_cel_offset_kept:
  "content (fst (read_cel_offset j s)) = content (fst s)"
  "l_byte (snd (snd (read_cel_offset j s))) = l_byte (snd (snd s))"
  by (simp_all add: read_cel_offset_def split_beta fread_u16_content)

lemma read_cel_header_kept:
  "content (fst (read_cel_header j s)) = content (fst s)"
  "l_byte (snd (snd (read_cel_header j s))) = l_byte (snd (snd s))"
  by (simp_all add: read_cel_header_def split_beta Let_def fread_u8_content fseek_def)

lemma read_loop_kept:
  "content (fst (read_loop i s)) = content (fst s)"
  "l_byte (snd (snd (read_loop i s))) = l_byte (snd (snd s))"
proof -
  have c: "content (fst (fold read_cel_offset ks t)) = content (fst t)"
          "content (fst (fold read_cel_header ks t)) = content (fst t)" for ks t
    by (rule fold_kept [where g = "\<lambda>s. content (fst s)"], rule read_cel_offset_kept read_cel_header_kept)+
  have b: "l_byte (snd (snd (fold read_cel_offset ks t))) = l_byte (snd (snd t))"
          "l_byte (snd (snd (fold read_cel_header ks t))) = l_byte (snd (snd t))" for ks t
    by (rule fold_kept [where g = "\<lambda>s. l_byte (snd (snd s))"], rule read_cel_offset_kept read_cel_header_kept)+
  show "content (fst (read_loop i s)) = content (fst s)"
    by (simp add: read_loop_def split_beta Let_def c fread_u8_content fseek_def)
  show "l_byte (snd (snd (read_loop i s))) = l_byte (snd (snd s))"
    by (simp add: read_loop_def split_beta Let_def b)
qed

lemma read_view_kept:
  "content (fst (read_view st f)) = content f"
  "l_byte (snd (snd (read_view st f))) = l_byte st"
proof -
  have c: "content (fst (fold read_loop_offset ks t)) = content (fst t)"
          "content (fst (fold read_loop ks u)) = content (fst u)" for ks t u
    by (rule fold_kept [where g = "\<lambda>s. content (fst s)"], rule read_loop_offset_content read_loop_kept)+
  have b: "l_byte (snd (snd (fold read_loop ks u))) = l_byte (snd (snd u))" for ks u
    by (rule fold_kept [where g = "\<lambda>s. l_byte (snd (snd s))"], rule read_loop_kept)
  show "content (fst (read_view st f)) = content f"
    by (simp add: read_view_def split_beta Let_def c read_num_loops_def fread_u8_content fseek_def
          split: option.splits)
  show "l_byte (snd (snd (read_view st f))) = l_byte st"
    by (simp add: read_view_def split_beta Let_def b)
qed

text \<open>
  A row ends when the file is empty or ends in a zero byte, and \<open>byte\<close> holds zero if the
  first read of the row is at the end of the file.
\<close>

lemma row_loop_returns:
  assumes z: "bs = [] \<or> last bs = 0"
  shows "content f = bs \<Longrightarrow> fpos f < length bs \<or> byte0 = 0 \<Longrightarrow>
         \<exists>runs f'. row_loop cel y step x byte0 f = Some (runs, f') \<and> content f' = bs"
proof (induction "length bs - fpos f" arbitrary: f x byte0)
  case 0
  then have "fread_u8 f = (None, f)" and "byte0 = 0"
    by (auto simp: fread_u8_def)
  with 0 show ?case
    by (subst row_loop.simps) simp
next
  case (Suc n)
  then have i: "fpos f < length bs"
    by simp
  let ?b = "bs ! fpos f"
  let ?f1 = "f\<lparr>fpos := fpos f + 1\<rparr>"
  have e: "fread_u8 f = (Some ?b, ?f1)"
    using i Suc.prems by (simp add: fread_u8_def)
  show ?case
  proof (cases "?b = 0")
    case True
    with e Suc.prems show ?thesis
      by (subst row_loop.simps) simp
  next
    case False
    have "fpos f + 1 \<noteq> length bs"
    proof
      assume l: "fpos f + 1 = length bs"
      then have "bs \<noteq> []" and "fpos f = length bs - 1"
        by auto
      then have "last bs = bs ! fpos f"
        by (simp add: last_conv_nth)
      with z \<open>bs \<noteq> []\<close> False show False by simp
    qed
    with i have i1: "fpos ?f1 < length bs \<or> ?b = 0"
      by simp
    have "n = length bs - fpos ?f1" and "content ?f1 = bs"
      using Suc by simp_all
    from Suc.hyps(1) [OF this i1]
    obtain runs f' where
      "row_loop cel y step (snd (write_run cel (drop_bit 4 ?b AND 0x0F) y step (unat (?b AND 0x0F)) x))
         ?b ?f1 = Some (runs, f')" "content f' = bs"
      by blast
    with e False show ?thesis
      by (subst row_loop.simps) (simp add: Let_def split_beta)
  qed
qed

text \<open>
  A row whose first read is at the end of the file, with a \<open>byte\<close> that is not zero,
  does not end.
\<close>

lemma row_loop_never_ends:
  assumes "length (content f) \<le> fpos f" and "byte0 \<noteq> 0"
  shows "row_loop cel y step x byte0 f = None"
proof (rule ccontr)
  assume "row_loop cel y step x byte0 f \<noteq> None"
  then obtain r where a: "row_loop cel y step x byte0 f = Some r"
    by auto
  let ?P = "\<lambda>(cel :: Cel) (y :: int) (step :: int) (x :: int) (byte0 :: Uint8) (f :: FILE)
              (r :: run list \<times> FILE). \<not> (length (content f) \<le> fpos f \<and> byte0 \<noteq> 0)"
  note ind = row_loop.raw_induct
    [where P = ?P and xa = "(((((cel, y), step), x), byte0), f)" and ya = r, unfolded prod.case]
  have "\<not> (length (content f) \<le> fpos f \<and> byte0 \<noteq> 0)"
  proof (rule ind)
    show "row_loop cel y step x byte0 f = Some r"
      by (rule a)
  next
    fix rl :: "Cel \<Rightarrow> int \<Rightarrow> int \<Rightarrow> int \<Rightarrow> Uint8 \<Rightarrow> FILE \<Rightarrow> (run list \<times> FILE) option"
    fix cel y step x byte0 f r
    assume ih: "\<And>cel y step x byte0 f r. rl cel y step x byte0 f = Some r \<Longrightarrow>
                  \<not> (length (content f) \<le> fpos f \<and> byte0 \<noteq> 0)"
      and b: "(case fread_u8 f of
                 (got, f1) \<Rightarrow>
                   let byte = (case got of Some b \<Rightarrow> b | None \<Rightarrow> byte0)
                   in if byte = 0 then Some ([], f1)
                      else let color = drop_bit 4 byte AND 0x0F;
                               count = byte AND 0x0F;
                               (ws, x') = write_run cel color y step (unat count) x
                           in Option.bind (rl cel y step x' byte f1)
                                (\<lambda>(runs, f2). Some ((color, count, ws) # runs, f2))) = Some r"
    show "\<not> (length (content f) \<le> fpos f \<and> byte0 \<noteq> 0)"
    proof
      assume c: "length (content f) \<le> fpos f \<and> byte0 \<noteq> 0"
      then have e: "fread_u8 f = (None, f)"
        by (simp add: fread_u8_def)
      from b c e obtain r' x' where "rl cel y step x' byte0 f = Some r'"
        by (auto simp: Let_def split_beta split: bind_splits)
      from ih [OF this] c show False
        by simp
    qed
  qed
  with assms show False
    by simp
qed

text \<open>The loops of the drawing end with the rows.\<close>

lemma draw_cel_row_returns:
  assumes "bs = [] \<or> last bs = 0" and "content f = bs"
  shows "\<exists>f' s'. draw_cel_row cel i cel_x cel_y k (f, s, 0) = Some (f', s', 0) \<and> content f' = bs"
proof -
  from row_loop_returns [OF assms, of 0] obtain runs f' where
    "row_loop cel (cel_y + int k) (snd (row_start cel i cel_x)) (fst (row_start cel i cel_x)) 0 f
       = Some (runs, f')" "content f' = bs"
    by blast
  then show ?thesis
    by (simp add: draw_cel_row_def draw_row_def split_beta)
qed

lemma draw_cel_returns:
  assumes z: "bs = [] \<or> last bs = 0" and "content f = bs"
  shows "\<exists>f' s' x'. draw_cel loop i cel_y j (f, s, 0, cel_x) = Some (f', s', 0, x') \<and> content f' = bs"
proof -
  let ?P = "\<lambda>(k :: nat) (t :: FILE \<times> SDL_Surface \<times> Uint8). content (fst t) = bs \<and> snd (snd t) = 0"
  have "\<exists>t. for_each [0..<unat (height (cels loop j))]
               (draw_cel_row (cels loop j) i cel_x cel_y)
               (fseek f (unat (data_offset (cels loop j))), s, 0) = Some t \<and>
             ?P (unat (height (cels loop j))) t"
  proof (rule for_each_upt_rule [where P = ?P])
    show "?P 0 (fseek f (unat (data_offset (cels loop j))), s, 0)"
      using assms(2) by (simp add: fseek_def)
  next
    fix k t
    assume "?P k t"
    then obtain f1 s1 where t: "t = (f1, s1, 0)" "content f1 = bs"
      by (cases t) auto
    from draw_cel_row_returns [OF z t(2)] t(1)
    show "\<exists>t'. draw_cel_row (cels loop j) i cel_x cel_y k t = Some t' \<and> ?P (Suc k) t'"
      by fastforce
  qed
  then show ?thesis
    by (auto simp: draw_cel_def Let_def)
qed

lemma draw_loop_returns:
  assumes z: "bs = [] \<or> last bs = 0" and "content f = bs"
  shows "\<exists>f' s' y'. draw_loop view i (f, s, 0, cel_y) = Some (f', s', 0, y') \<and> content f' = bs"
proof -
  let ?P = "\<lambda>(k :: nat) (t :: FILE \<times> SDL_Surface \<times> Uint8 \<times> int).
              content (fst t) = bs \<and> fst (snd (snd t)) = 0"
  have "\<exists>t. for_each [0..<unat (num_cels (loops view i))] (draw_cel (loops view i) i cel_y)
               (f, s, 0, 0) = Some t \<and> ?P (unat (num_cels (loops view i))) t"
  proof (rule for_each_upt_rule [where P = ?P])
    show "?P 0 (f, s, 0, 0)"
      using assms(2) by simp
  next
    fix k t
    assume "?P k t"
    then obtain f1 s1 x1 where t: "t = (f1, s1, 0, x1)" "content f1 = bs"
      by (cases t) auto
    from draw_cel_returns [OF z t(2)] t(1)
    show "\<exists>t'. draw_cel (loops view i) i cel_y k t = Some t' \<and> ?P (Suc k) t'"
      by fastforce
  qed
  then show ?thesis
    by (auto simp: draw_loop_def Let_def)
qed

lemma draw_view_returns:
  assumes z: "bs = [] \<or> last bs = 0" and "content f = bs"
  shows "\<exists>s'. draw_view view f s 0 = Some s'"
proof -
  let ?P = "\<lambda>(k :: nat) (t :: FILE \<times> SDL_Surface \<times> Uint8 \<times> int).
              content (fst t) = bs \<and> fst (snd (snd t)) = 0"
  have "\<exists>t. for_each [0..<unat (num_loops view)] (draw_loop view) (f, s, 0, 0) = Some t \<and>
             ?P (unat (num_loops view)) t"
  proof (rule for_each_upt_rule [where P = ?P])
    show "?P 0 (f, s, 0, 0)"
      using assms(2) by simp
  next
    fix k t
    assume "?P k t"
    then obtain f1 s1 y1 where t: "t = (f1, s1, 0, y1)" "content f1 = bs"
      by (cases t) auto
    from draw_loop_returns [OF z t(2)] t(1)
    show "\<exists>t'. draw_loop view k t = Some t' \<and> ?P (Suc k) t'"
      by fastforce
  qed
  then show ?thesis
    by (auto simp: draw_view_def)
qed

section \<open>Whole files\<close>

text \<open>The example files: what the reads, the sizing and the drawing make of them.\<close>

lemma read_view_cut_file:
  "read_view st \<lparr>content = cut_file, fpos = 0\<rparr> =
     (\<lparr>content = cut_file, fpos = 16\<rparr>, cut_view, st\<lparr>l_rel_offset := 9, l_info := 0\<rparr>)"
  by (simp add: cut_file_def cut_view_def read_view_def read_num_loops_def fseek_def fread_u8_def fread_u16_def
      read_loop_offset_def read_loop_def read_cel_offset_def read_cel_header_def
      view0_def loop0_def cel0_def le16_def ftell_def Let_def upt_rec fun_eq_iff)

lemma read_view_big_file:
  "read_view st \<lparr>content = big_file, fpos = 0\<rparr> =
     (\<lparr>content = big_file, fpos = 13\<rparr>, big_view, st\<lparr>l_rel_offset := 3, l_info := 0\<rparr>)"
  by (simp add: big_file_def big_view_def read_view_def read_num_loops_def fseek_def fread_u8_def fread_u16_def
      read_loop_offset_def read_loop_def read_cel_offset_def read_cel_header_def
      view0_def loop0_def cel0_def le16_def ftell_def Let_def upt_rec fun_eq_iff)

lemma GetSurfaceSize_examples:
  "fst (GetSurfaceSize wide_view) = \<lparr>rect_x = 0, rect_y = 0, rect_w = 88, rect_h = 1\<rparr>"
  "fst (GetSurfaceSize cut_view) = \<lparr>rect_x = 0, rect_y = 0, rect_w = 400, rect_h = 1\<rparr>"
  "fst (GetSurfaceSize big_view) = \<lparr>rect_x = 0, rect_y = 0, rect_w = 510, rect_h = 255\<rparr>"
  by code_simp+

lemma CreateSurface_examples:
  "CreateSurface sdl_example wide_view =
     Created (\<lparr>surf_w = 88, surf_h = 1, pixels = (\<lambda>p. (0, 0, 0, 0))\<rparr>, snd (GetSurfaceSize wide_view))"
  "CreateSurface sdl_example cut_view =
     Created (\<lparr>surf_w = 400, surf_h = 1, pixels = (\<lambda>p. (0, 0, 0, 0))\<rparr>, snd (GetSurfaceSize cut_view))"
  "CreateSurface sdl_example big_view = Exit_Failure"
  by (simp_all add: CreateSurface_def split_beta GetSurfaceSize_examples sdl_example_def)

lemmas draw_defs = draw_view_def draw_loop_def draw_cel_def draw_cel_row_def draw_row_def row_start_def
  writes_of_def fread_u8_def fseek_def GetSurfaceSize_def size_view_loop_def size_loop_def size_cel_def
  view0_def loop0_def cel0_def rect0_def upt_rec Let_def

lemma draw_view_wide:
  "draw_view (snd (GetSurfaceSize wide_view)) \<lparr>content = wide_file, fpos = 19\<rparr> s b = Some s"
  by (simp add: draw_defs row_loop.simps wide_view_def wide_file_def)

lemma draw_view_cut:
  "draw_view (snd (GetSurfaceSize cut_view)) \<lparr>content = cut_file, fpos = 16\<rparr> s 0 = Some s"
  by (simp add: draw_defs row_loop.simps cut_view_def cut_file_def)

lemma draw_view_cut_never_ends:
  "b \<noteq> 0 \<Longrightarrow> draw_view (snd (GetSurfaceSize cut_view)) \<lparr>content = cut_file, fpos = 16\<rparr> s b = None"
  by (simp add: draw_defs row_loop_never_ends cut_view_def cut_file_def)

lemma ViewToBMP_ok:
  assumes "fs ''ok'' = Some wide_file"
  shows "ViewToBMP sdl_example st fs ''ok'' =
     (Returned,
      [Converting ''ok'', Saved ''ok.bmp'' \<lparr>surf_w = 88, surf_h = 1, pixels = (\<lambda>p. (0, 0, 0, 0))\<rparr>],
      fs(''ok.bmp'' \<mapsto> [0x42, 0x4D]))"
  using assms
  by (simp add: ViewToBMP_def read_view_wide_file CreateSurface_examples draw_view_wide)
     (simp add: sdl_example_def bmp_name_def)

text \<open>
  The first row of \<open>cut_file\<close> is read at the end of the file. It ends when \<open>byte\<close> holds
  zero at entry; with any other content the call never returns.
\<close>

lemma ViewToBMP_cut:
  assumes "fs ''cut'' = Some cut_file"
  shows "ViewToBMP sdl_example st fs ''cut'' =
     (if l_byte st = 0
      then (Returned,
            [Converting ''cut'', Saved ''cut.bmp'' \<lparr>surf_w = 400, surf_h = 1, pixels = (\<lambda>p. (0, 0, 0, 0))\<rparr>],
            fs(''cut.bmp'' \<mapsto> [0x42, 0x4D]))
      else (Never_Returns, [Converting ''cut''], fs))"
  using assms
  by (simp add: ViewToBMP_def read_view_cut_file CreateSurface_examples draw_view_cut draw_view_cut_never_ends)
     (simp add: sdl_example_def bmp_name_def)

text \<open>
  C4, as amended. No read is checked, and no way through \<open>ViewToBMP\<close> reports a short
  read. For every file that opens, whatever its bytes and whatever the locals hold at
  entry: the call exits exactly when SDL gives no surface of the size computed from the
  View as read, and then nothing is saved; a call that returns has saved \<open>path.bmp\<close>; the
  only other outcome is a row loop that does not end. A file that is empty or ends in a
  zero byte, read with \<open>byte\<close> holding zero at entry, is always saved when SDL gives the
  surface, however many of its reads came up short.
\<close>

theorem short_read_not_detected:
  assumes "fs path = Some bytes"
    and "read_view st \<lparr>content = bytes, fpos = 0\<rparr> = (file, view, st1)"
  shows "(fst (ViewToBMP sdl st fs path) = Exited) =
           (\<not> create_ok sdl (rect_w (fst (GetSurfaceSize view))) (rect_h (fst (GetSurfaceSize view)))) \<and>
         (fst (ViewToBMP sdl st fs path) = Exited \<longrightarrow>
            ViewToBMP sdl st fs path = (Exited, [Converting path, Failed], fs)) \<and>
         (fst (ViewToBMP sdl st fs path) = Returned \<longrightarrow>
            (\<exists>s. ViewToBMP sdl st fs path =
                   (Returned, [Converting path, Saved (bmp_name path) s], save_bmp sdl s (bmp_name path) fs))) \<and>
         (fst (ViewToBMP sdl st fs path) = Never_Returns \<longrightarrow>
            ViewToBMP sdl st fs path = (Never_Returns, [Converting path], fs)) \<and>
         (create_ok sdl (rect_w (fst (GetSurfaceSize view))) (rect_h (fst (GetSurfaceSize view))) \<and>
          (bytes = [] \<or> last bytes = 0) \<and> l_byte st = 0 \<longrightarrow>
            fst (ViewToBMP sdl st fs path) = Returned)"
proof (cases "create_ok sdl (rect_w (fst (GetSurfaceSize view))) (rect_h (fst (GetSurfaceSize view)))")
  case False
  then have "ViewToBMP sdl st fs path = (Exited, [Converting path, Failed], fs)"
    using assms by (simp add: ViewToBMP_def CreateSurface_def split_beta)
  with False show ?thesis
    by simp
next
  case True
  let ?s0 = "\<lparr>surf_w = rect_w (fst (GetSurfaceSize view)), surf_h = rect_h (fst (GetSurfaceSize view)),
              pixels = (\<lambda>p. (0, 0, 0, 0))\<rparr>"
  let ?v1 = "snd (GetSurfaceSize view)"
  have c: "CreateSurface sdl view = Created (?s0, ?v1)"
    using True by (simp add: CreateSurface_def split_beta)
  have k: "content file = bytes" "l_byte st1 = l_byte st"
    using read_view_kept [of st "\<lparr>content = bytes, fpos = 0\<rparr>"] assms(2) by simp_all
  show ?thesis
  proof (cases "draw_view ?v1 file ?s0 (l_byte st1)")
    case None
    have "\<not> ((bytes = [] \<or> last bytes = 0) \<and> l_byte st = 0)"
    proof
      assume a: "(bytes = [] \<or> last bytes = 0) \<and> l_byte st = 0"
      then have "\<exists>s. draw_view ?v1 file ?s0 0 = Some s"
        using draw_view_returns [of bytes "file"] k(1) by blast
      with None a k(2) show False
        by simp
    qed
    moreover have "ViewToBMP sdl st fs path = (Never_Returns, [Converting path], fs)"
      using assms c None by (simp add: ViewToBMP_def)
    ultimately show ?thesis
      using True by simp
  next
    case (Some s)
    have "ViewToBMP sdl st fs path =
            (Returned, [Converting path, Saved (bmp_name path) s], save_bmp sdl s (bmp_name path) fs)"
      using assms c Some by (simp add: ViewToBMP_def)
    with True show ?thesis
      by simp
  qed
qed

theorem short_read_not_detected_witness:
  "view_files ''cut'' = Some cut_file \<and>
   read_view junk0 \<lparr>content = cut_file, fpos = 0\<rparr> =
     (\<lparr>content = cut_file, fpos = 16\<rparr>, cut_view, junk0\<lparr>l_rel_offset := 9, l_info := 0\<rparr>) \<and>
   create_ok sdl_example (rect_w (fst (GetSurfaceSize cut_view))) (rect_h (fst (GetSurfaceSize cut_view))) \<and>
   last cut_file = 0 \<and> l_byte junk0 = 0 \<and>
   (\<exists>s. ViewToBMP sdl_example junk0 view_files ''cut'' =
      (Returned, [Converting ''cut'', Saved ''cut.bmp'' s], view_files(''cut.bmp'' \<mapsto> [0x42, 0x4D]))) \<and>
   view_files ''big'' = Some big_file \<and>
   read_view junk \<lparr>content = big_file, fpos = 0\<rparr> =
     (\<lparr>content = big_file, fpos = 13\<rparr>, big_view, junk\<lparr>l_rel_offset := 3, l_info := 0\<rparr>) \<and>
   ViewToBMP sdl_example junk view_files ''big'' = (Exited, [Converting ''big'', Failed], view_files)"
proof -
  have f: "view_files ''cut'' = Some cut_file" "view_files ''big'' = Some big_file"
    by (simp_all add: view_files_def)
  note r = read_view_cut_file [of junk0] and rb = read_view_big_file [of junk]
  have c: "create_ok sdl_example (rect_w (fst (GetSurfaceSize cut_view))) (rect_h (fst (GetSurfaceSize cut_view)))"
    and cb: "\<not> create_ok sdl_example (rect_w (fst (GetSurfaceSize big_view))) (rect_h (fst (GetSurfaceSize big_view)))"
    by (simp_all add: GetSurfaceSize_examples sdl_example_def)
  have z: "last cut_file = 0" "l_byte junk0 = 0"
    by (simp_all add: cut_file_def junk0_def)
  note t = short_read_not_detected
    [of view_files "''cut''" cut_file junk0 "\<lparr>content = cut_file, fpos = 16\<rparr>" cut_view
        "junk0\<lparr>l_rel_offset := 9, l_info := 0\<rparr>" sdl_example, OF f(1) r]
  from t c z have "fst (ViewToBMP sdl_example junk0 view_files ''cut'') = Returned"
    by blast
  with t have "\<exists>s. ViewToBMP sdl_example junk0 view_files ''cut'' =
      (Returned, [Converting ''cut'', Saved (bmp_name ''cut'') s],
       save_bmp sdl_example s (bmp_name ''cut'') view_files)"
    by blast
  then have 1: "\<exists>s. ViewToBMP sdl_example junk0 view_files ''cut'' =
      (Returned, [Converting ''cut'', Saved ''cut.bmp'' s], view_files(''cut.bmp'' \<mapsto> [0x42, 0x4D]))"
    by (simp add: sdl_example_def bmp_name_def)
  note tb = short_read_not_detected
    [of view_files "''big''" big_file junk "\<lparr>content = big_file, fpos = 13\<rparr>" big_view
        "junk\<lparr>l_rel_offset := 3, l_info := 0\<rparr>" sdl_example, OF f(2) rb]
  from tb cb have "fst (ViewToBMP sdl_example junk view_files ''big'') = Exited"
    by blast
  with tb have 2: "ViewToBMP sdl_example junk view_files ''big'' = (Exited, [Converting ''big'', Failed], view_files)"
    by blast
  show ?thesis
    by (intro conjI) (rule f(1), rule r, rule c, rule z(1), rule z(2), rule 1, rule f(2), rule rb, rule 2)
qed

text \<open>
  C4 as stated fails: the empty file cannot supply the byte at offset 2, and is converted
  and saved all the same.
\<close>

theorem empty_file_not_rejected:
  "ViewToBMP sdl_example junk [''a'' \<mapsto> []] ''a'' =
     (Returned,
      [Converting ''a'', Saved ''a.bmp'' \<lparr>surf_w = 0, surf_h = 0, pixels = (\<lambda>p. (0, 0, 0, 0))\<rparr>],
      [''a'' \<mapsto> [], ''a.bmp'' \<mapsto> [0x42, 0x4D]])"
  by (simp add: ViewToBMP_def read_view_def read_num_loops_def fseek_def fread_u8_def view0_def
        CreateSurface_def GetSurfaceSize_def rect0_def draw_view_def sdl_example_def bmp_name_def)

text \<open>
  C8, as amended. The files are converted in order. A file that cannot be opened is
  reported and the files after it are converted as if it had not been named. A file that
  opens is not examined for being well formed: whatever its bytes, if it is empty or ends
  in a zero byte, \<open>byte\<close> holds zero at entry and SDL gives the surface, then it is drawn
  and saved and the loop goes on with the files after it. When SDL gives no surface for a
  file, \<open>CreateSurface\<close> calls \<open>exit\<close>: the run ends there and no later file is converted.
\<close>

theorem convert_all_skips_unopenable_exits_on_failure:
  "(fs path = None \<longrightarrow>
      convert_all sdl sts fs (path # paths) =
        (case convert_all sdl (\<lambda>k. sts (Suc k)) fs paths of
           (r, ev, fs') \<Rightarrow> (r, [Converting path, Open_Error path] @ ev, fs'))) \<and>
   (fs1 path1 = Some bytes1 \<and> (bytes1 = [] \<or> last bytes1 = 0) \<and> l_byte (sts1 0) = 0 \<and>
    read_view (sts1 0) \<lparr>content = bytes1, fpos = 0\<rparr> = (file1, view1, st1) \<and>
    CreateSurface sdl1 view1 = Created (s0, view1') \<longrightarrow>
      (\<exists>s. draw_view view1' file1 s0 0 = Some s \<and>
           convert_all sdl1 sts1 fs1 (path1 # paths1) =
             (case convert_all sdl1 (\<lambda>k. sts1 (Suc k)) (save_bmp sdl1 s (bmp_name path1) fs1) paths1 of
                (r, ev, fs') \<Rightarrow> (r, [Converting path1, Saved (bmp_name path1) s] @ ev, fs')))) \<and>
   (fs2 path2 = Some bytes2 \<and>
    read_view (sts2 0) \<lparr>content = bytes2, fpos = 0\<rparr> = (file2, view2, st2) \<and>
    \<not> create_ok sdl2 (rect_w (fst (GetSurfaceSize view2))) (rect_h (fst (GetSurfaceSize view2))) \<longrightarrow>
      convert_all sdl2 sts2 fs2 (path2 # paths2) = (Exited, [Converting path2, Failed], fs2))"
proof (intro conjI impI)
  assume "fs path = None"
  then show "convert_all sdl sts fs (path # paths) =
        (case convert_all sdl (\<lambda>k. sts (Suc k)) fs paths of
           (r, ev, fs') \<Rightarrow> (r, [Converting path, Open_Error path] @ ev, fs'))"
    by (simp add: ViewToBMP_def split: prod.splits)
next
  assume a: "fs1 path1 = Some bytes1 \<and> (bytes1 = [] \<or> last bytes1 = 0) \<and> l_byte (sts1 0) = 0 \<and>
    read_view (sts1 0) \<lparr>content = bytes1, fpos = 0\<rparr> = (file1, view1, st1) \<and>
    CreateSurface sdl1 view1 = Created (s0, view1')"
  then have k: "content file1 = bytes1" "l_byte st1 = 0"
    using read_view_kept [of "sts1 0" "\<lparr>content = bytes1, fpos = 0\<rparr>"] by simp_all
  from a k(1) obtain s where s: "draw_view view1' file1 s0 0 = Some s"
    using draw_view_returns [of bytes1 file1] by blast
  with a k(2) have "ViewToBMP sdl1 (sts1 0) fs1 path1 =
      (Returned, [Converting path1, Saved (bmp_name path1) s], save_bmp sdl1 s (bmp_name path1) fs1)"
    by (simp add: ViewToBMP_def)
  then have "convert_all sdl1 sts1 fs1 (path1 # paths1) =
             (case convert_all sdl1 (\<lambda>k. sts1 (Suc k)) (save_bmp sdl1 s (bmp_name path1) fs1) paths1 of
                (r, ev, fs') \<Rightarrow> (r, [Converting path1, Saved (bmp_name path1) s] @ ev, fs'))"
    by (simp split: prod.splits)
  with s show "\<exists>s. draw_view view1' file1 s0 0 = Some s \<and>
           convert_all sdl1 sts1 fs1 (path1 # paths1) =
             (case convert_all sdl1 (\<lambda>k. sts1 (Suc k)) (save_bmp sdl1 s (bmp_name path1) fs1) paths1 of
                (r, ev, fs') \<Rightarrow> (r, [Converting path1, Saved (bmp_name path1) s] @ ev, fs'))"
    by blast
next
  assume "fs2 path2 = Some bytes2 \<and>
    read_view (sts2 0) \<lparr>content = bytes2, fpos = 0\<rparr> = (file2, view2, st2) \<and>
    \<not> create_ok sdl2 (rect_w (fst (GetSurfaceSize view2))) (rect_h (fst (GetSurfaceSize view2)))"
  then have "ViewToBMP sdl2 (sts2 0) fs2 path2 = (Exited, [Converting path2, Failed], fs2)"
    by (simp add: ViewToBMP_def CreateSurface_def split_beta)
  then show "convert_all sdl2 sts2 fs2 (path2 # paths2) = (Exited, [Converting path2, Failed], fs2)"
    by simp
qed

text \<open>
  C8 as stated fails: \<open>big\<close> is a truncated View whose header asks for a canvas of 510 by
  255, which this SDL does not give; the run exits, and \<open>ok\<close>, which is converted when
  given alone, is never read.
\<close>

theorem failed_surface_stops_all_files:
  "convert_all sdl_example (\<lambda>k. junk) view_files [''big'', ''ok''] =
     (Exited, [Converting ''big'', Failed], view_files) \<and>
   convert_all sdl_example (\<lambda>k. junk) view_files [''ok''] =
     (Returned,
      [Converting ''ok'', Saved ''ok.bmp'' \<lparr>surf_w = 88, surf_h = 1, pixels = (\<lambda>p. (0, 0, 0, 0))\<rparr>],
      view_files(''ok.bmp'' \<mapsto> [0x42, 0x4D]))"
proof -
  have "ViewToBMP sdl_example junk view_files ''big'' = (Exited, [Converting ''big'', Failed], view_files)"
    by (simp add: ViewToBMP_def view_files_def read_view_big_file CreateSurface_examples)
  moreover have "view_files ''ok'' = Some wide_file"
    by (simp add: view_files_def)
  ultimately show ?thesis
    by (simp add: ViewToBMP_ok)
qed

theorem convert_all_skips_unopenable_exits_on_failure_witness:
  "view_files ''gone'' = None \<and>
   view_files ''cut'' = Some cut_file \<and> last cut_file = 0 \<and> l_byte junk0 = 0 \<and>
   read_view junk0 \<lparr>content = cut_file, fpos = 0\<rparr> =
     (\<lparr>content = cut_file, fpos = 16\<rparr>, cut_view, junk0\<lparr>l_rel_offset := 9, l_info := 0\<rparr>) \<and>
   CreateSurface sdl_example cut_view =
     Created (\<lparr>surf_w = 400, surf_h = 1, pixels = (\<lambda>p. (0, 0, 0, 0))\<rparr>, snd (GetSurfaceSize cut_view)) \<and>
   convert_all sdl_example (\<lambda>k. junk0) view_files [''gone'', ''cut'', ''ok''] =
     (Returned,
      [Converting ''gone'', Open_Error ''gone'',
       Converting ''cut'', Saved ''cut.bmp'' \<lparr>surf_w = 400, surf_h = 1, pixels = (\<lambda>p. (0, 0, 0, 0))\<rparr>,
       Converting ''ok'', Saved ''ok.bmp'' \<lparr>surf_w = 88, surf_h = 1, pixels = (\<lambda>p. (0, 0, 0, 0))\<rparr>],
      view_files(''cut.bmp'' \<mapsto> [0x42, 0x4D], ''ok.bmp'' \<mapsto> [0x42, 0x4D])) \<and>
   view_files ''big'' = Some big_file \<and>
   read_view junk0 \<lparr>content = big_file, fpos = 0\<rparr> =
     (\<lparr>content = big_file, fpos = 13\<rparr>, big_view, junk0\<lparr>l_rel_offset := 3, l_info := 0\<rparr>) \<and>
   convert_all sdl_example (\<lambda>k. junk0) view_files [''big'', ''ok''] =
     (Exited, [Converting ''big'', Failed], view_files)"
proof -
  have g: "view_files ''gone'' = None" and c: "view_files ''cut'' = Some cut_file"
    and b: "view_files ''big'' = Some big_file"
    by (simp_all add: view_files_def)
  have z: "last cut_file = 0" "l_byte junk0 = 0"
    by (simp_all add: cut_file_def junk0_def)
  note r = read_view_cut_file [of junk0] and rb = read_view_big_file [of junk0]
  note cs = CreateSurface_examples(2)
  have nb: "\<not> create_ok sdl_example (rect_w (fst (GetSurfaceSize big_view))) (rect_h (fst (GetSurfaceSize big_view)))"
    by (simp add: GetSurfaceSize_examples sdl_example_def)
  let ?s = "\<lparr>surf_w = 400, surf_h = 1, pixels = (\<lambda>p. (0, 0, 0, 0))\<rparr>"
  note t = convert_all_skips_unopenable_exits_on_failure
    [of view_files "''gone''" sdl_example "\<lambda>k. junk0" "[''cut'', ''ok'']"
        view_files "''cut''" cut_file "\<lambda>k. junk0"
        "\<lparr>content = cut_file, fpos = 16\<rparr>" cut_view "junk0\<lparr>l_rel_offset := 9, l_info := 0\<rparr>"
        sdl_example ?s "snd (GetSurfaceSize cut_view)" "[''ok'']"
        view_files "''big''" big_file "\<lambda>k. junk0"
        "\<lparr>content = big_file, fpos = 13\<rparr>" big_view "junk0\<lparr>l_rel_offset := 3, l_info := 0\<rparr>"
        sdl_example "[''ok'']"]
  have ok: "convert_all sdl_example (\<lambda>k. junk0) (view_files(''cut.bmp'' \<mapsto> [0x42, 0x4D])) [''ok''] =
     (Returned,
      [Converting ''ok'', Saved ''ok.bmp'' \<lparr>surf_w = 88, surf_h = 1, pixels = (\<lambda>p. (0, 0, 0, 0))\<rparr>],
      view_files(''cut.bmp'' \<mapsto> [0x42, 0x4D], ''ok.bmp'' \<mapsto> [0x42, 0x4D]))"
    by (simp add: ViewToBMP_ok view_files_def)
  from t c z r cs obtain s where s: "draw_view (snd (GetSurfaceSize cut_view)) \<lparr>content = cut_file, fpos = 16\<rparr> ?s 0 = Some s"
    "convert_all sdl_example (\<lambda>k. junk0) view_files [''cut'', ''ok''] =
       (case convert_all sdl_example (\<lambda>k. junk0) (save_bmp sdl_example s (bmp_name ''cut'') view_files) [''ok''] of
          (r, ev, fs') \<Rightarrow> (r, [Converting ''cut'', Saved (bmp_name ''cut'') s] @ ev, fs'))"
    by blast
  from s(1) have "s = ?s"
    by (simp add: draw_view_cut)
  with s(2) ok have 2: "convert_all sdl_example (\<lambda>k. junk0) view_files [''cut'', ''ok''] =
     (Returned,
      [Converting ''cut'', Saved ''cut.bmp'' ?s,
       Converting ''ok'', Saved ''ok.bmp'' \<lparr>surf_w = 88, surf_h = 1, pixels = (\<lambda>p. (0, 0, 0, 0))\<rparr>],
      view_files(''cut.bmp'' \<mapsto> [0x42, 0x4D], ''ok.bmp'' \<mapsto> [0x42, 0x4D]))"
    by (simp add: sdl_example_def bmp_name_def)
  from t g have "convert_all sdl_example (\<lambda>k. junk0) view_files [''gone'', ''cut'', ''ok''] =
        (case convert_all sdl_example (\<lambda>k. junk0) view_files [''cut'', ''ok''] of
           (r, ev, fs') \<Rightarrow> (r, [Converting ''gone'', Open_Error ''gone''] @ ev, fs'))"
    by blast
  with 2 have 1: "convert_all sdl_example (\<lambda>k. junk0) view_files [''gone'', ''cut'', ''ok''] =
     (Returned,
      [Converting ''gone'', Open_Error ''gone'',
       Converting ''cut'', Saved ''cut.bmp'' ?s,
       Converting ''ok'', Saved ''ok.bmp'' \<lparr>surf_w = 88, surf_h = 1, pixels = (\<lambda>p. (0, 0, 0, 0))\<rparr>],
      view_files(''cut.bmp'' \<mapsto> [0x42, 0x4D], ''ok.bmp'' \<mapsto> [0x42, 0x4D]))"
    by simp
  from t b rb nb have 3: "convert_all sdl_example (\<lambda>k. junk0) view_files [''big'', ''ok''] =
     (Exited, [Converting ''big'', Failed], view_files)"
    by blast
  show ?thesis
    by (intro conjI) (rule g, rule c, rule z(1), rule z(2), rule r, rule cs, rule 1, rule b, rule rb, rule 3)
qed

end
